theory Spec2Isabelle
  imports Complex_Main "HOL-Library.Multiset"
begin

section \<open>The data of \<^verbatim>\<open>src/local/run.py\<close>\<close>

text \<open>
  The script holds its identifiers in module-level variables (lines 10--13 and 26--29)
  and rewrites a JSON document loaded from \<^verbatim>\<open>sample.json\<close>. The document is
  modelled by the keys \<^verbatim>\<open>adjust_ids\<close> reads: the objects of
  \<^verbatim>\<open>event.activities\<close> (keys \<^verbatim>\<open>activity-id\<close> and \<^verbatim>\<open>name\<close>), the objects of
  \<^verbatim>\<open>attrs.participants\<close> (an optional key \<^verbatim>\<open>activities\<close> holding objects with an
  \<^verbatim>\<open>activity-id\<close>) and the objects of \<^verbatim>\<open>attrs.categories\<close> (key
  \<^verbatim>\<open>activity-id\<close>). Identifiers and names are strings. \<open>doc_id\<close> is the document's key
  \<^verbatim>\<open>id\<close>, which line 116 sets. Whatever else an object holds is carried in a field of
  an arbitrary type \<open>'x\<close>, which the code never reads.
  A document of another shape (a missing key, a key of another JSON type) is outside
  the model.
\<close>

record globals =
  event_id :: string
  name_suffix :: string
  request_id :: string
  interaction_id :: string
  kata_id :: string
  kumite_id :: string
  team_id :: string
  coach_id :: string

record 'x activity =
  activity_id :: string
  name :: string
  activity_other :: 'x

record 'x activity_ref =
  ref_activity_id :: string
  ref_other :: 'x

type_synonym 'x category = "'x activity_ref"

record 'x participant =
  activities :: "'x activity_ref list option"
  participant_other :: 'x

record 'x document =
  doc_id :: "string option"
  event_activities :: "'x activity list"
  attrs_participants :: "'x participant list"
  attrs_categories :: "'x category list"
  document_other :: 'x

text \<open>
  The exceptions the modelled lines can meet. \<open>UnboundLocalError\<close> carries the variable's
  name, \<open>KeyError\<close> the missing key, \<open>ClientError\<close> the error code of the store's
  response, \<open>ValueError\<close> is what \<^verbatim>\<open>time.sleep\<close> raises on a negative argument, and
  \<open>OtherException\<close> is any other exception.
\<close>

datatype py_exception =
  UnboundLocalError string
| KeyError string
| ClientError string
| ValueError
| OtherException string

text \<open>
  \<^verbatim>\<open>adjust_ids\<close> mutates its argument in place and returns nothing. Its outcome is
  the document as the caller sees it afterwards, together with the exception when one
  was raised.
\<close>

datatype 'x outcome =
  Returned "'x document"
| Raised py_exception "'x document"

fun doc_of :: "'x outcome \<Rightarrow> 'x document" where
  "doc_of (Returned d) = d"
| "doc_of (Raised e d) = d"

fun raised :: "'x outcome \<Rightarrow> py_exception option" where
  "raised (Returned d) = None"
| "raised (Raised e d) = Some e"

section \<open>\<^verbatim>\<open>adjust_ids\<close> (lines 70--97)\<close>

text \<open>
  Lines 79--86: four independent \<^verbatim>\<open>if\<close> statements without \<^verbatim>\<open>else\<close> assign the
  local variable \<^verbatim>\<open>new_activity_id\<close>. The variable lives across iterations of the
  loop: \<open>None\<close> is the unbound variable, and a name that matches none of the four
  tests leaves the variable as the previous iteration left it.
\<close>

definition assign_new_id :: "globals \<Rightarrow> string \<Rightarrow> string option \<Rightarrow> string option" where
  "assign_new_id g nm v0 =
     (let v1 = (if nm = ''Kata'' then Some (kata_id g) else v0);
          v2 = (if nm = ''Kumite'' then Some (kumite_id g) else v1);
          v3 = (if nm = ''Team Kata'' then Some (team_id g) else v2);
          v4 = (if nm = ''Coach'' then Some (coach_id g) else v3)
      in v4)"

text \<open>
  Lines 76--88, the loop over \<^verbatim>\<open>event.activities\<close>. The arguments are the variable
  \<^verbatim>\<open>new_activity_id\<close>, the dictionary \<^verbatim>\<open>activity_id_map\<close> and the objects still
  to visit; the result is the list as the loop leaves it, the dictionary, and the
  exception if line 87 read the unbound variable. Line 87 raises before it writes, so
  the object at which the loop stops is unchanged.
\<close>

fun definitions_loop ::
  "globals \<Rightarrow> string option \<Rightarrow> (string \<rightharpoonup> string) \<Rightarrow> 'x activity list \<Rightarrow>
     'x activity list \<times> (string \<rightharpoonup> string) \<times> py_exception option" where
  "definitions_loop g v m [] = ([], m, None)"
| "definitions_loop g v m (a # as) =
     (let original_activity_id = activity_id a in
      case assign_new_id g (name a) v of
        None \<Rightarrow> (a # as, m, Some (UnboundLocalError ''new_activity_id''))
      | Some new_activity_id \<Rightarrow>
          (case definitions_loop g (Some new_activity_id)
                  (m(original_activity_id \<mapsto> new_activity_id)) as of
             (as', m', e) \<Rightarrow> (a\<lparr>activity_id := new_activity_id\<rparr> # as', m', e)))"

text \<open>
  Lines 93--94 and 96--97: each object's \<^verbatim>\<open>activity-id\<close> is replaced by
  \<^verbatim>\<open>activity_id_map[...]\<close>; a key the dictionary lacks raises \<^verbatim>\<open>KeyError\<close> and
  leaves that object and the ones after it as they were.
\<close>

fun references_loop ::
  "(string \<rightharpoonup> string) \<Rightarrow> 'x activity_ref list \<Rightarrow> 'x activity_ref list \<times> py_exception option" where
  "references_loop m [] = ([], None)"
| "references_loop m (r # rs) =
     (case m (ref_activity_id r) of
        None \<Rightarrow> (r # rs, Some (KeyError (ref_activity_id r)))
      | Some new_activity_id \<Rightarrow>
          (case references_loop m rs of
             (rs', e) \<Rightarrow> (r\<lparr>ref_activity_id := new_activity_id\<rparr> # rs', e)))"

text \<open>
  Lines 91--94: a participant without the key \<^verbatim>\<open>activities\<close> is skipped.
\<close>

fun participants_loop ::
  "(string \<rightharpoonup> string) \<Rightarrow> 'x participant list \<Rightarrow> 'x participant list \<times> py_exception option" where
  "participants_loop m [] = ([], None)"
| "participants_loop m (p # ps) =
     (case activities p of
        None \<Rightarrow> (case participants_loop m ps of (ps', e) \<Rightarrow> (p # ps', e))
      | Some rs \<Rightarrow>
          (case references_loop m rs of
             (rs', Some e) \<Rightarrow> (p\<lparr>activities := Some rs'\<rparr> # ps, Some e)
           | (rs', None) \<Rightarrow>
               (case participants_loop m ps of
                  (ps', e) \<Rightarrow> (p\<lparr>activities := Some rs'\<rparr> # ps', e))))"

definition adjust_ids :: "globals \<Rightarrow> 'x document \<Rightarrow> 'x outcome" where
  "adjust_ids g data_to_modify =
     (case definitions_loop g None Map.empty (event_activities data_to_modify) of
        (as', activity_id_map, Some e) \<Rightarrow>
          Raised e (data_to_modify\<lparr>event_activities := as'\<rparr>)
      | (as', activity_id_map, None) \<Rightarrow>
          (case participants_loop activity_id_map (attrs_participants data_to_modify) of
             (ps', Some e) \<Rightarrow>
               Raised e (data_to_modify\<lparr>event_activities := as', attrs_participants := ps'\<rparr>)
           | (ps', None) \<Rightarrow>
               (case references_loop activity_id_map (attrs_categories data_to_modify) of
                  (cs', Some e) \<Rightarrow>
                    Raised e (data_to_modify\<lparr>event_activities := as',
                      attrs_participants := ps', attrs_categories := cs'\<rparr>)
                | (cs', None) \<Rightarrow>
                    Returned (data_to_modify\<lparr>event_activities := as',
                      attrs_participants := ps', attrs_categories := cs'\<rparr>))))"

text \<open>The dictionary \<^verbatim>\<open>activity_id_map\<close> as it stands after line 88's loop.\<close>

definition activity_id_map :: "globals \<Rightarrow> 'x document \<Rightarrow> (string \<rightharpoonup> string)" where
  "activity_id_map g d = fst (snd (definitions_loop g None Map.empty (event_activities d)))"

section \<open>Waiting for the object, then publishing (lines 143--167)\<close>

text \<open>
  What a block of the script does to the outside world is recorded as a trace of
  events, in the order the calls are made. \<open>Uuid4 u\<close> is a call of \<^verbatim>\<open>uuid.uuid4()\<close>
  that produced \<open>u\<close>. The object store is a parameter: \<open>head_object n\<close> is what the
  \<open>n\<close>-th call of \<^verbatim>\<open>s3_client.head_object\<close> does (counted from \<open>0\<close>), \<open>None\<close> when it
  returns and \<open>Some e\<close> when it raises \<open>e\<close>. The body of \<^verbatim>\<open>put_object\<close> is
  \<^verbatim>\<open>json.dumps\<close> of the document, a function of the document; the event carries the
  document.
\<close>

record command =
  cmd_id :: string
  application_id :: string
  cmd_event_id :: string
  attrs_name :: string
  attrs_date :: string
  attrs_type :: string
  attrs_activities :: "unit activity list"

record envelope =
  env_request_id :: string
  env_interaction_id :: string
  commands :: "command list"
  user_selected_role :: "string option"

datatype 'x event =
  Uuid4 string
| Now
| HttpPost envelope
| HeadObject
| Sleep int
| PutObject "'x document"

text \<open>Line 154: the exception is a \<^verbatim>\<open>ClientError\<close> whose code is one of the two.\<close>

definition not_found :: "py_exception \<Rightarrow> bool" where
  "not_found e =
     (case e of ClientError code \<Rightarrow> code \<in> set [''404'', ''NoSuchKey''] | _ \<Rightarrow> False)"

text \<open>
  How the \<^verbatim>\<open>while\<close> loop of line 148 ends: by \<^verbatim>\<open>break\<close> (line 152), by its condition
  becoming false, which runs the \<^verbatim>\<open>else\<close> clause of line 163, or by an exception.
\<close>

datatype loop_exit = Break | Exhausted | LoopRaised py_exception

text \<open>
  The loop, with the two local variables of lines 143--144 as parameters. \<open>n\<close> counts
  the calls of \<^verbatim>\<open>head_object\<close> made so far. \<^verbatim>\<open>time.sleep\<close> raises \<^verbatim>\<open>ValueError\<close> on a
  negative argument. With an interval of \<open>0\<close> and an object that never appears the loop
  does not end: the result \<open>None\<close> stands for that.
\<close>

partial_function (option) wait_loop ::
  "int \<Rightarrow> int \<Rightarrow> (nat \<Rightarrow> py_exception option) \<Rightarrow> int \<Rightarrow> nat \<Rightarrow> 'x event list \<Rightarrow>
     (loop_exit \<times> int \<times> 'x event list) option" where
  "wait_loop max_wait_seconds wait_interval_seconds head_object time_waited n tr =
     (if time_waited < max_wait_seconds then
        (case head_object n of
           None \<Rightarrow> Some (Break, time_waited, tr @ [HeadObject])
         | Some e \<Rightarrow>
             if not_found e then
               (if wait_interval_seconds < 0
                then Some (LoopRaised ValueError, time_waited, tr @ [HeadObject])
                else wait_loop max_wait_seconds wait_interval_seconds head_object
                       (time_waited + wait_interval_seconds) (Suc n)
                       (tr @ [HeadObject, Sleep wait_interval_seconds]))
             else Some (LoopRaised e, time_waited, tr @ [HeadObject]))
      else Some (Exhausted, time_waited, tr))"

declare wait_loop.simps [code]

text \<open>
  Lines 145--167: the loop from \<open>time_waited = 0\<close>, then \<^verbatim>\<open>put_object\<close> unless the loop
  raised. \<open>put_object\<close> is what the call does (\<open>None\<close>: it returns). The result is the
  trace and the exception that leaves the block, if any.
\<close>

definition await_then_publish ::
  "int \<Rightarrow> int \<Rightarrow> (nat \<Rightarrow> py_exception option) \<Rightarrow> py_exception option \<Rightarrow> 'x document \<Rightarrow>
     ('x event list \<times> py_exception option) option" where
  "await_then_publish max_wait_seconds wait_interval_seconds head_object put_object body =
     (case wait_loop max_wait_seconds wait_interval_seconds head_object 0 0 [] of
        None \<Rightarrow> None
      | Some (LoopRaised e, time_waited, tr) \<Rightarrow> Some (tr, Some e)
      | Some (_, time_waited, tr) \<Rightarrow> Some (tr @ [PutObject body], put_object))"

section \<open>Identifiers and the command (lines 10--68 and 100)\<close>

text \<open>
  The file as it stands is not a Python program: line 133 reads \<^verbatim>\<open>// ai\<close>, which is
  no statement, so the file does not compile and no run of the whole script exists.
  Nothing here models such a run. Each definition is what the lines it names do when
  they are executed: \<^verbatim>\<open>adjust_ids\<close> above, lines 143--167 above, and here the lines
  that generate the identifiers, build the command and post it.

  The surroundings of these lines are the values the successive calls of
  \<^verbatim>\<open>uuid.uuid4()\<close> produce and the formatted time.
\<close>

record env =
  uuid4 :: "nat \<Rightarrow> string"
  now :: string

text \<open>Lines 10--13 and 26--29, in the order of the calls.\<close>

definition allocate :: "env \<Rightarrow> globals" where
  "allocate e =
     \<lparr>event_id = uuid4 e 0,
      name_suffix = now e,
      request_id = uuid4 e 1,
      interaction_id = uuid4 e 2,
      kata_id = ''#'' @ uuid4 e 3,
      kumite_id = ''#'' @ uuid4 e 4,
      team_id = ''#'' @ uuid4 e 5,
      coach_id = ''#'' @ uuid4 e 6\<rparr>"

text \<open>Lines 31--68, the command envelope.\<close>

definition data :: "globals \<Rightarrow> envelope" where
  "data g =
     \<lparr>env_request_id = ''#'' @ request_id g,
      env_interaction_id = ''#'' @ interaction_id g,
      commands =
        [\<lparr>cmd_id = '':create-event'',
          application_id = ''#d3f9ed78-8f80-4808-bad6-388a26c09558'',
          cmd_event_id = ''#'' @ event_id g,
          attrs_name = ''Test '' @ [CHR 0x27] @ name_suffix g @ [CHR 0x27],
          attrs_date = ''2025-06-14'',
          attrs_type = '':tournament'',
          attrs_activities =
            [\<lparr>activity_id = kata_id g, name = ''Kata'', activity_other = ()\<rparr>,
             \<lparr>activity_id = kumite_id g, name = ''Kumite'', activity_other = ()\<rparr>,
             \<lparr>activity_id = team_id g, name = ''Team Kata'', activity_other = ()\<rparr>,
             \<lparr>activity_id = coach_id g, name = ''Coach'', activity_other = ()\<rparr>]\<rparr>],
      user_selected_role = None\<rparr>"

text \<open>
  Lines 10--13, 26--29 and 100: the calls these lines make, in the order of the lines,
  up to and with the call of \<^verbatim>\<open>requests.post\<close>, whose \<^verbatim>\<open>json\<close> argument is \<^verbatim>\<open>data\<close>.
  What the call returns or raises, and everything after line 100, is not part of it.
\<close>

definition submit_command :: "env \<Rightarrow> 'x event list" where
  "submit_command e =
     [Uuid4 (uuid4 e 0), Now, Uuid4 (uuid4 e 1), Uuid4 (uuid4 e 2),
      Uuid4 (uuid4 e 3), Uuid4 (uuid4 e 4), Uuid4 (uuid4 e 5), Uuid4 (uuid4 e 6),
      HttpPost (data (allocate e))]"

section \<open>The passes with the visits in another order\<close>

text \<open>
  The three passes with the order of the visits as a parameter: a list of positions
  for each sequence, and for each participant a list of positions of its activities.
  Each visit does what the body of the source's loop does to the object at that
  position, in place.
\<close>

fun definitions_in_order ::
  "globals \<Rightarrow> nat list \<Rightarrow> string option \<Rightarrow> (string \<rightharpoonup> string) \<Rightarrow> 'x activity list \<Rightarrow>
     'x activity list \<times> (string \<rightharpoonup> string) \<times> py_exception option" where
  "definitions_in_order g [] v m as = (as, m, None)"
| "definitions_in_order g (i # is) v m as =
     (let a = as ! i; original_activity_id = activity_id a in
      case assign_new_id g (name a) v of
        None \<Rightarrow> (as, m, Some (UnboundLocalError ''new_activity_id''))
      | Some new_activity_id \<Rightarrow>
          definitions_in_order g is (Some new_activity_id)
            (m(original_activity_id \<mapsto> new_activity_id))
            (as[i := a\<lparr>activity_id := new_activity_id\<rparr>]))"

fun references_in_order ::
  "(string \<rightharpoonup> string) \<Rightarrow> nat list \<Rightarrow> 'x activity_ref list \<Rightarrow>
     'x activity_ref list \<times> py_exception option" where
  "references_in_order m [] rs = (rs, None)"
| "references_in_order m (i # is) rs =
     (case m (ref_activity_id (rs ! i)) of
        None \<Rightarrow> (rs, Some (KeyError (ref_activity_id (rs ! i))))
      | Some new_activity_id \<Rightarrow>
          references_in_order m is (rs[i := (rs ! i)\<lparr>ref_activity_id := new_activity_id\<rparr>]))"

fun participants_in_order ::
  "(string \<rightharpoonup> string) \<Rightarrow> (nat \<Rightarrow> nat list) \<Rightarrow> nat list \<Rightarrow> 'x participant list \<Rightarrow>
     'x participant list \<times> py_exception option" where
  "participants_in_order m inner [] ps = (ps, None)"
| "participants_in_order m inner (i # is) ps =
     (case activities (ps ! i) of
        None \<Rightarrow> participants_in_order m inner is ps
      | Some rs \<Rightarrow>
          (case references_in_order m (inner i) rs of
             (rs', Some e) \<Rightarrow> (ps[i := (ps ! i)\<lparr>activities := Some rs'\<rparr>], Some e)
           | (rs', None) \<Rightarrow>
               participants_in_order m inner is (ps[i := (ps ! i)\<lparr>activities := Some rs'\<rparr>])))"

record orders =
  definitions_order :: "nat list"
  participants_order :: "nat list"
  activities_order :: "nat \<Rightarrow> nat list"
  categories_order :: "nat list"

definition adjust_ids_in_order :: "globals \<Rightarrow> orders \<Rightarrow> 'x document \<Rightarrow> 'x outcome" where
  "adjust_ids_in_order g ord data_to_modify =
     (case definitions_in_order g (definitions_order ord) None Map.empty
             (event_activities data_to_modify) of
        (as', m, Some e) \<Rightarrow>
          Raised e (data_to_modify\<lparr>event_activities := as'\<rparr>)
      | (as', m, None) \<Rightarrow>
          (case participants_in_order m (activities_order ord)
                  (participants_order ord) (attrs_participants data_to_modify) of
             (ps', Some e) \<Rightarrow>
               Raised e (data_to_modify\<lparr>event_activities := as', attrs_participants := ps'\<rparr>)
           | (ps', None) \<Rightarrow>
               (case references_in_order m (categories_order ord)
                       (attrs_categories data_to_modify) of
                  (cs', Some e) \<Rightarrow>
                    Raised e (data_to_modify\<lparr>event_activities := as',
                      attrs_participants := ps', attrs_categories := cs'\<rparr>)
                | (cs', None) \<Rightarrow>
                    Returned (data_to_modify\<lparr>event_activities := as',
                      attrs_participants := ps', attrs_categories := cs'\<rparr>))))"

text \<open>
  The order of the source, and the orders that visit every position of every sequence
  of a document once.
\<close>

definition document_order :: "'x document \<Rightarrow> orders" where
  "document_order d =
     \<lparr>definitions_order = [0..<length (event_activities d)],
      participants_order = [0..<length (attrs_participants d)],
      activities_order =
        (\<lambda>i. case activities (attrs_participants d ! i) of
               None \<Rightarrow> [] | Some rs \<Rightarrow> [0..<length rs]),
      categories_order = [0..<length (attrs_categories d)]\<rparr>"

definition is_order :: "nat list \<Rightarrow> nat \<Rightarrow> bool" where
  "is_order is n \<longleftrightarrow> distinct is \<and> set is = {0..<n}"

definition admissible :: "orders \<Rightarrow> 'x document \<Rightarrow> bool" where
  "admissible ord d \<longleftrightarrow>
     is_order (definitions_order ord) (length (event_activities d)) \<and>
     is_order (participants_order ord) (length (attrs_participants d)) \<and>
     list_all (\<lambda>i. case activities (attrs_participants d ! i) of
                     None \<Rightarrow> True
                   | Some rs \<Rightarrow> is_order (activities_order ord i) (length rs))
       [0..<length (attrs_participants d)] \<and>
     is_order (categories_order ord) (length (attrs_categories d))"

section \<open>Notions the properties are stated with\<close>

text \<open>
  The identifier a command envelope gives to each activity name, and the assignment
  of new identifiers to names that the script's envelope carries (lines 43--59).
\<close>

definition command_activity_ids :: "envelope \<Rightarrow> (string \<rightharpoonup> string)" where
  "command_activity_ids c =
     map_of (map (\<lambda>a. (name a, activity_id a)) (concat (map attrs_activities (commands c))))"

definition name_to_new_id :: "globals \<Rightarrow> (string \<rightharpoonup> string)" where
  "name_to_new_id g = command_activity_ids (data g)"

definition fixed_names :: "string list" where
  "fixed_names = [''Kata'', ''Kumite'', ''Team Kata'', ''Coach'']"

text \<open>A document with every \<^verbatim>\<open>activity-id\<close> blanked: all that is not an \<^verbatim>\<open>activity-id\<close>.\<close>

definition without_ids :: "'x document \<Rightarrow> 'x document" where
  "without_ids d =
     d\<lparr>event_activities := map (\<lambda>a. a\<lparr>activity_id := []\<rparr>) (event_activities d),
       attrs_participants :=
         map (\<lambda>p. p\<lparr>activities := map_option (map (\<lambda>r. r\<lparr>ref_activity_id := []\<rparr>)) (activities p)\<rparr>)
           (attrs_participants d),
       attrs_categories := map (\<lambda>r. r\<lparr>ref_activity_id := []\<rparr>) (attrs_categories d)\<rparr>"

text \<open>
  The identifiers the participants and the categories refer to, in the order lines
  91--97 visit them, and what these lines do to them, on the identifiers alone: each
  is replaced by its entry of the dictionary, up to the first that has none.
\<close>

definition participant_ids :: "'x participant \<Rightarrow> string list" where
  "participant_ids p = (case activities p of None \<Rightarrow> [] | Some rs \<Rightarrow> map ref_activity_id rs)"

definition referenced_ids :: "'x document \<Rightarrow> string list" where
  "referenced_ids d =
     concat (map (\<lambda>p. case activities p of None \<Rightarrow> [] | Some rs \<Rightarrow> map ref_activity_id rs)
       (attrs_participants d))
     @ map ref_activity_id (attrs_categories d)"

fun rewrite_ids :: "(string \<rightharpoonup> string) \<Rightarrow> string list \<Rightarrow> string list \<times> py_exception option" where
  "rewrite_ids m [] = ([], None)"
| "rewrite_ids m (k # ks) =
     (case m k of
        None \<Rightarrow> (k # ks, Some (KeyError k))
      | Some n \<Rightarrow> (case rewrite_ids m ks of (ks', e) \<Rightarrow> (n # ks', e)))"

text \<open>
  A definition \<open>a\<close> was rewritten to \<open>a'\<close> as the assignment says for its name; a
  reference \<open>r\<close> was rewritten to \<open>r'\<close> as the assignment says for the name of a
  definition whose original identifier \<open>r\<close> held.
\<close>

definition remapped_definition :: "globals \<Rightarrow> 'x activity \<Rightarrow> 'x activity \<Rightarrow> bool" where
  "remapped_definition g a a' \<longleftrightarrow> name_to_new_id g (name a) = Some (activity_id a')"

definition remapped_reference ::
  "globals \<Rightarrow> 'x activity list \<Rightarrow> 'x activity_ref \<Rightarrow> 'x activity_ref \<Rightarrow> bool" where
  "remapped_reference g as r r' \<longleftrightarrow>
     (\<exists>a\<in>set as. activity_id a = ref_activity_id r \<and>
        name_to_new_id g (name a) = Some (ref_activity_id r'))"

text \<open>
  For the proofs: the pairs line 88 stores when every name is one of the four, in the
  order of the loop; a definition with the new identifier of its name; a reference,
  and a participant, rewritten by a dictionary that holds the keys.
\<close>

definition recorded :: "globals \<Rightarrow> 'x activity list \<Rightarrow> (string \<times> string) list" where
  "recorded g as = map (\<lambda>a. (activity_id a, the (name_to_new_id g (name a)))) as"

definition with_new_id :: "globals \<Rightarrow> 'x activity \<Rightarrow> 'x activity" where
  "with_new_id g a = a\<lparr>activity_id := the (name_to_new_id g (name a))\<rparr>"

definition substitute :: "(string \<rightharpoonup> string) \<Rightarrow> 'x activity_ref \<Rightarrow> 'x activity_ref" where
  "substitute m r = r\<lparr>ref_activity_id := the (m (ref_activity_id r))\<rparr>"

definition substitute_all :: "(string \<rightharpoonup> string) \<Rightarrow> 'x participant \<Rightarrow> 'x participant" where
  "substitute_all m p = p\<lparr>activities := map_option (map (substitute m)) (activities p)\<rparr>"

text \<open>
  For the traces: a response of the store that line 154 takes for "not found", \<open>k\<close>
  rounds of a check followed by a sleep, and the number of existence checks and of
  publish calls in a trace.
\<close>

definition reports_not_found :: "py_exception option \<Rightarrow> bool" where
  "reports_not_found r = (case r of None \<Rightarrow> False | Some e \<Rightarrow> not_found e)"

definition polls :: "int \<Rightarrow> nat \<Rightarrow> 'x event list" where
  "polls wait_interval_seconds k = concat (replicate k [HeadObject, Sleep wait_interval_seconds])"

definition checks :: "'x event list \<Rightarrow> nat" where
  "checks tr = length (filter (\<lambda>ev. case ev of HeadObject \<Rightarrow> True | _ \<Rightarrow> False) tr)"

definition publishes :: "'x event list \<Rightarrow> nat" where
  "publishes tr = length (filter (\<lambda>ev. case ev of PutObject b \<Rightarrow> True | _ \<Rightarrow> False) tr)"

section \<open>Documents, orders and stores to try the properties on\<close>

text \<open>
  Identifiers and a template: four definitions with the original identifiers
  \<open>A1\<close> to \<open>A4\<close>, a participant who takes part in Kumite, one without activities, and
  a category of Kata. Then the template with a second category, of an activity that no
  definition has.
\<close>

definition example_globals :: globals where
  "example_globals =
     \<lparr>event_id = ''E0'', name_suffix = ''14/09-30'', request_id = ''R0'',
      interaction_id = ''I0'', kata_id = ''#N1'', kumite_id = ''#N2'',
      team_id = ''#N3'', coach_id = ''#N4''\<rparr>"

definition example_activities :: "string activity list" where
  "example_activities =
     [\<lparr>activity_id = ''A1'', name = ''Kata'', activity_other = ''individual''\<rparr>,
      \<lparr>activity_id = ''A2'', name = ''Kumite'', activity_other = ''individual''\<rparr>,
      \<lparr>activity_id = ''A3'', name = ''Team Kata'', activity_other = ''team''\<rparr>,
      \<lparr>activity_id = ''A4'', name = ''Coach'', activity_other = ''staff''\<rparr>]"

definition example_document :: "string document" where
  "example_document =
     \<lparr>doc_id = Some ''#old'',
      event_activities = example_activities,
      attrs_participants =
        [\<lparr>activities = Some [\<lparr>ref_activity_id = ''A2'', ref_other = ''-60kg''\<rparr>],
          participant_other = ''Ann''\<rparr>,
         \<lparr>activities = None, participant_other = ''Bob''\<rparr>],
      attrs_categories = [\<lparr>ref_activity_id = ''A1'', ref_other = ''juniors''\<rparr>],
      document_other = ''Test''\<rparr>"

definition unresolved_document :: "string document" where
  "unresolved_document =
     example_document\<lparr>attrs_categories :=
       [\<lparr>ref_activity_id = ''A1'', ref_other = ''juniors''\<rparr>,
        \<lparr>ref_activity_id = ''A9'', ref_other = ''seniors''\<rparr>]\<rparr>"

text \<open>
  Two templates with a definition whose name is none of the four, after a Kata and
  before it; a template in which two definitions are named Kata; one in which two
  definitions are named Kata, a Kumite has the original identifier of the first of
  them, and the category is of an activity that no definition has; and one in which
  two definitions have the same original identifier.
\<close>

definition sumo_second :: "string document" where
  "sumo_second =
     \<lparr>doc_id = None,
      event_activities =
        [\<lparr>activity_id = ''A1'', name = ''Kata'', activity_other = ''individual''\<rparr>,
         \<lparr>activity_id = ''A5'', name = ''Sumo'', activity_other = ''individual''\<rparr>],
      attrs_participants = [],
      attrs_categories = [\<lparr>ref_activity_id = ''A5'', ref_other = ''open''\<rparr>],
      document_other = ''Test''\<rparr>"

definition sumo_first :: "string document" where
  "sumo_first =
     \<lparr>doc_id = None,
      event_activities =
        [\<lparr>activity_id = ''A5'', name = ''Sumo'', activity_other = ''individual''\<rparr>,
         \<lparr>activity_id = ''A1'', name = ''Kata'', activity_other = ''individual''\<rparr>],
      attrs_participants = [],
      attrs_categories = [\<lparr>ref_activity_id = ''A5'', ref_other = ''open''\<rparr>],
      document_other = ''Test''\<rparr>"

definition twice_kata :: "string document" where
  "twice_kata =
     \<lparr>doc_id = None,
      event_activities =
        [\<lparr>activity_id = ''A1'', name = ''Kata'', activity_other = ''individual''\<rparr>,
         \<lparr>activity_id = ''A2'', name = ''Kata'', activity_other = ''team''\<rparr>,
         \<lparr>activity_id = ''A3'', name = ''Kumite'', activity_other = ''individual''\<rparr>],
      attrs_participants =
        [\<lparr>activities = Some [\<lparr>ref_activity_id = ''A1'', ref_other = ''-60kg''\<rparr>,
                              \<lparr>ref_activity_id = ''A2'', ref_other = ''open''\<rparr>],
          participant_other = ''Ann''\<rparr>],
      attrs_categories = [\<lparr>ref_activity_id = ''A3'', ref_other = ''juniors''\<rparr>],
      document_other = ''Test''\<rparr>"

definition twice_kata_unresolved :: "string document" where
  "twice_kata_unresolved =
     \<lparr>doc_id = None,
      event_activities =
        [\<lparr>activity_id = ''A1'', name = ''Kata'', activity_other = ''individual''\<rparr>,
         \<lparr>activity_id = ''A2'', name = ''Kata'', activity_other = ''team''\<rparr>,
         \<lparr>activity_id = ''A1'', name = ''Kumite'', activity_other = ''individual''\<rparr>],
      attrs_participants = [],
      attrs_categories = [\<lparr>ref_activity_id = ''A9'', ref_other = ''juniors''\<rparr>],
      document_other = ''Test''\<rparr>"

definition same_identifier :: "string document" where
  "same_identifier =
     \<lparr>doc_id = None,
      event_activities =
        [\<lparr>activity_id = ''A1'', name = ''Kata'', activity_other = ''individual''\<rparr>,
         \<lparr>activity_id = ''A1'', name = ''Kumite'', activity_other = ''individual''\<rparr>],
      attrs_participants = [],
      attrs_categories = [\<lparr>ref_activity_id = ''A1'', ref_other = ''juniors''\<rparr>],
      document_other = ''Test''\<rparr>"

text \<open>
  The order that visits two definitions backwards, and an order for the first
  template.
\<close>

definition reversed_definitions :: orders where
  "reversed_definitions =
     \<lparr>definitions_order = [1, 0], participants_order = [],
      activities_order = (\<lambda>i. []), categories_order = [0]\<rparr>"

definition shuffled :: orders where
  "shuffled =
     \<lparr>definitions_order = [3, 1, 0, 2], participants_order = [1, 0],
      activities_order = (\<lambda>i. [0]), categories_order = [0]\<rparr>"

text \<open>
  A store in which the object appears at the third check, one in which it never does,
  and one in which the third check is refused with another error code; and values
  for the calls of \<^verbatim>\<open>uuid4\<close> and for the time.
\<close>

definition found_at_third :: "nat \<Rightarrow> py_exception option" where
  "found_at_third n = (if n < 2 then Some (ClientError ''404'') else None)"

definition never_found :: "nat \<Rightarrow> py_exception option" where
  "never_found n = Some (ClientError ''NoSuchKey'')"

definition denied_at_third :: "nat \<Rightarrow> py_exception option" where
  "denied_at_third n = Some (ClientError (if n < 2 then ''404'' else ''403''))"

definition example_env :: env where
  "example_env =
     \<lparr>uuid4 = (\<lambda>n. [''e0'', ''r0'', ''i0'', ''n1'', ''n2'', ''n3'', ''n4''] ! n),
      now = ''14/09-30''\<rparr>"

section \<open>Only identifiers change\<close>

lemma definitions_loop_frame:
  "definitions_loop g v m as = (as', m', e) \<Longrightarrow>
   map (\<lambda>a. a\<lparr>activity_id := []\<rparr>) as' = map (\<lambda>a. a\<lparr>activity_id := []\<rparr>) as"
  by (induction as arbitrary: v m as' m' e) (auto split: option.splits prod.splits)

lemma references_loop_frame:
  "references_loop m rs = (rs', e) \<Longrightarrow>
   map (\<lambda>r. r\<lparr>ref_activity_id := []\<rparr>) rs' = map (\<lambda>r. r\<lparr>ref_activity_id := []\<rparr>) rs"
  by (induction rs arbitrary: rs' e) (auto split: option.splits prod.splits)

lemma participants_loop_frame:
  "participants_loop m ps = (ps', e) \<Longrightarrow>
   map (\<lambda>p. p\<lparr>activities := map_option (map (\<lambda>r. r\<lparr>ref_activity_id := []\<rparr>)) (activities p)\<rparr>) ps' =
   map (\<lambda>p. p\<lparr>activities := map_option (map (\<lambda>r. r\<lparr>ref_activity_id := []\<rparr>)) (activities p)\<rparr>) ps"
  by (induction ps arbitrary: ps' e)
    (auto split: option.splits prod.splits dest: references_loop_frame)

lemma adjust_ids_without_ids:
  "without_ids (doc_of (adjust_ids g d)) = without_ids d"
proof -
  obtain as' m e1 where l1: "definitions_loop g None Map.empty (event_activities d) = (as', m, e1)"
    by (metis prod_cases3)
  obtain ps' e2 where l2: "participants_loop m (attrs_participants d) = (ps', e2)"
    by (metis surj_pair)
  obtain cs' e3 where l3: "references_loop m (attrs_categories d) = (cs', e3)"
    by (metis surj_pair)
  note f1 = definitions_loop_frame [OF l1]
  note f2 = participants_loop_frame [OF l2]
  note f3 = references_loop_frame [OF l3]
  show ?thesis
  proof (cases e1)
    case (Some e)
    with l1 f1 show ?thesis by (simp add: adjust_ids_def without_ids_def)
  next
    case None
    note n1 = this
    show ?thesis
    proof (cases e2)
      case (Some e)
      with n1 l1 l2 f1 f2 show ?thesis by (simp add: adjust_ids_def without_ids_def)
    next
      case None
      with n1 l1 l2 l3 f1 f2 f3 show ?thesis
        by (cases e3) (simp_all add: adjust_ids_def without_ids_def)
    qed
  qed
qed

text \<open>
  C10. Whether \<^verbatim>\<open>adjust_ids\<close> returns or raises, the document it leaves differs from
  the one it was given in \<^verbatim>\<open>activity-id\<close> values only: with those blanked in the
  definitions, in the participants' activities and in the categories, the two documents
  are equal. Names, the other keys of every object, the length and order of every
  sequence, participants without \<^verbatim>\<open>activities\<close> and the rest of the document are as
  they were.
\<close>

theorem adjust_ids_frame:
  "without_ids (doc_of (adjust_ids g d)) = without_ids d"
  by (rule adjust_ids_without_ids)

section \<open>Referential integrity of the rewriting\<close>

lemma name_to_new_id_eq:
  "name_to_new_id g nm =
     (if nm = ''Kata'' then Some (kata_id g)
      else if nm = ''Kumite'' then Some (kumite_id g)
      else if nm = ''Team Kata'' then Some (team_id g)
      else if nm = ''Coach'' then Some (coach_id g)
      else None)"
  by (simp add: name_to_new_id_def command_activity_ids_def data_def)

lemma assign_new_id_fixed:
  "nm \<in> set fixed_names \<Longrightarrow> assign_new_id g nm v = name_to_new_id g nm"
  by (auto simp: assign_new_id_def fixed_names_def name_to_new_id_eq)

lemma assign_new_id_other:
  "nm \<notin> set fixed_names \<Longrightarrow> assign_new_id g nm v = v"
  by (auto simp: assign_new_id_def fixed_names_def)

lemma name_to_new_id_dom:
  "nm \<in> set fixed_names \<Longrightarrow> \<exists>n. name_to_new_id g nm = Some n"
  by (auto simp: fixed_names_def name_to_new_id_eq)

lemma definitions_loop_fixed:
  "\<forall>a\<in>set as. name a \<in> set fixed_names \<Longrightarrow>
   definitions_loop g v m as =
     (map (\<lambda>a. a\<lparr>activity_id := the (name_to_new_id g (name a))\<rparr>) as,
      m ++ map_of (rev (recorded g as)), None)"
proof (induction as arbitrary: v m)
  case Nil
  show ?case by (simp add: recorded_def)
next
  case (Cons a as)
  from Cons.prems have fx: "name a \<in> set fixed_names" by simp
  then obtain n where n: "name_to_new_id g (name a) = Some n"
    using name_to_new_id_dom by blast
  have asg: "assign_new_id g (name a) v = Some n"
    using fx n by (simp add: assign_new_id_fixed)
  have ih: "definitions_loop g (Some n) (m(activity_id a \<mapsto> n)) as =
     (map (\<lambda>a. a\<lparr>activity_id := the (name_to_new_id g (name a))\<rparr>) as,
      m(activity_id a \<mapsto> n) ++ map_of (rev (recorded g as)), None)"
    using Cons.IH Cons.prems by simp
  have "m(activity_id a \<mapsto> n) ++ map_of (rev (recorded g as)) =
        m ++ map_of (rev (recorded g (a # as)))"
    by (simp add: recorded_def n map_add_upd_left [symmetric] fun_eq_iff map_add_def split: option.splits)
  with asg ih n show ?case by simp
qed

lemma references_loop_resolved:
  "\<forall>r\<in>set rs. m (ref_activity_id r) \<noteq> None \<Longrightarrow>
   references_loop m rs = (map (substitute m) rs, None)"
  by (induction rs) (auto simp: substitute_def)

lemma participants_loop_resolved:
  "\<forall>p\<in>set ps. \<forall>rs. activities p = Some rs \<longrightarrow> (\<forall>r\<in>set rs. m (ref_activity_id r) \<noteq> None) \<Longrightarrow>
   participants_loop m ps =
     (map (\<lambda>p. p\<lparr>activities := map_option (map (substitute m)) (activities p)\<rparr>) ps, None)"
proof (induction ps)
  case Nil
  show ?case by simp
next
  case (Cons p ps)
  then have ih: "participants_loop m ps =
     (map (\<lambda>p. p\<lparr>activities := map_option (map (substitute m)) (activities p)\<rparr>) ps, None)"
    by simp
  show ?case
  proof (cases "activities p")
    case None
    then have "p\<lparr>activities := map_option (map (substitute m)) (activities p)\<rparr> = p"
      by (metis option.simps(8) participant.update_convs(1) participant.surjective)
    with None ih show ?thesis by simp
  next
    case (Some rs)
    with Cons.prems have "\<forall>r\<in>set rs. m (ref_activity_id r) \<noteq> None" by simp
    then have "references_loop m rs = (map (substitute m) rs, None)"
      by (rule references_loop_resolved)
    with Some ih show ?thesis by simp
  qed
qed

lemma recorded_defined:
  "k \<in> activity_id ` set as \<Longrightarrow> \<exists>n. map_of (rev (recorded g as)) k = Some n"
proof -
  assume "k \<in> activity_id ` set as"
  then have "k \<in> fst ` set (rev (recorded g as))"
    by (force simp: recorded_def)
  then show ?thesis
    by (metis map_of_eq_None_iff not_None_eq)
qed

lemma recorded_origin:
  assumes "\<forall>a\<in>set as. name a \<in> set fixed_names"
    and "map_of (rev (recorded g as)) k = Some n"
  shows "\<exists>a\<in>set as. activity_id a = k \<and> name_to_new_id g (name a) = Some n"
proof -
  from assms(2) have "(k, n) \<in> set (recorded g as)"
    using map_of_SomeD by fastforce
  then obtain a where a: "a \<in> set as" "activity_id a = k" "n = the (name_to_new_id g (name a))"
    by (auto simp: recorded_def)
  with assms(1) name_to_new_id_dom [of "name a" g] show ?thesis
    by auto
qed

lemma adjust_ids_returns:
  assumes names: "\<forall>a\<in>set (event_activities d). name a \<in> set fixed_names"
    and refs: "\<forall>k\<in>set (referenced_ids d). k \<in> activity_id ` set (event_activities d)"
  shows "adjust_ids g d =
     Returned (d\<lparr>event_activities :=
                   map (\<lambda>a. a\<lparr>activity_id := the (name_to_new_id g (name a))\<rparr>) (event_activities d),
                 attrs_participants :=
                   map (\<lambda>p. p\<lparr>activities := map_option
                       (map (substitute (map_of (rev (recorded g (event_activities d))))))
                       (activities p)\<rparr>) (attrs_participants d),
                 attrs_categories :=
                   map (substitute (map_of (rev (recorded g (event_activities d)))))
                     (attrs_categories d)\<rparr>)"
proof -
  let ?as = "event_activities d"
  let ?M = "map_of (rev (recorded g ?as))"
  have l1: "definitions_loop g None Map.empty ?as =
      (map (\<lambda>a. a\<lparr>activity_id := the (name_to_new_id g (name a))\<rparr>) ?as, ?M, None)"
    using definitions_loop_fixed [OF names, of g None Map.empty] by simp
  have res: "?M k \<noteq> None" if "k \<in> set (referenced_ids d)" for k
    using refs that recorded_defined [of k ?as g] by auto
  have pres: "\<forall>p\<in>set (attrs_participants d). \<forall>rs. activities p = Some rs \<longrightarrow>
      (\<forall>r\<in>set rs. ?M (ref_activity_id r) \<noteq> None)"
  proof (intro ballI allI impI)
    fix p rs r
    assume "p \<in> set (attrs_participants d)" "activities p = Some rs" "r \<in> set rs"
    then have "ref_activity_id r \<in> set (referenced_ids d)"
      by (force simp: referenced_ids_def)
    then show "?M (ref_activity_id r) \<noteq> None" by (rule res)
  qed
  have cres: "\<forall>r\<in>set (attrs_categories d). ?M (ref_activity_id r) \<noteq> None"
    using res by (simp add: referenced_ids_def)
  have l2: "participants_loop ?M (attrs_participants d) =
      (map (\<lambda>p. p\<lparr>activities := map_option (map (substitute ?M)) (activities p)\<rparr>)
         (attrs_participants d), None)"
    using pres by (rule participants_loop_resolved)
  have l3: "references_loop ?M (attrs_categories d) = (map (substitute ?M) (attrs_categories d), None)"
    using cres by (rule references_loop_resolved)
  show ?thesis
    by (simp add: adjust_ids_def l1 l2 l3)
qed

text \<open>
  C1. When every definition of \<^verbatim>\<open>event.activities\<close> has one of the four names and
  every identifier a participant or a category refers to is the original identifier of
  some definition, \<^verbatim>\<open>adjust_ids\<close> returns, and in the document it leaves every
  definition holds the new identifier the command envelope assigns to its name, and
  every reference holds the new identifier assigned to the name of a definition whose
  original identifier the reference held. Sequences keep their lengths, and a
  participant without \<^verbatim>\<open>activities\<close> stays without. The claim's further hypothesis,
  one definition per name, is not needed. Where the original identifiers of the
  definitions are pairwise distinct, the definition a reference corresponds to is
  the only one with that identifier.
\<close>

theorem adjust_ids_referential_integrity:
  assumes names: "\<forall>a\<in>set (event_activities d). name a \<in> set fixed_names"
    and refs: "\<forall>k\<in>set (referenced_ids d). k \<in> activity_id ` set (event_activities d)"
  shows "\<exists>d'. adjust_ids g d = Returned d' \<and>
           list_all2 (remapped_definition g) (event_activities d) (event_activities d') \<and>
           list_all2 (\<lambda>p p'. rel_option (list_all2 (remapped_reference g (event_activities d)))
                       (activities p) (activities p'))
             (attrs_participants d) (attrs_participants d') \<and>
           list_all2 (remapped_reference g (event_activities d))
             (attrs_categories d) (attrs_categories d')"
proof -
  let ?as = "event_activities d"
  let ?M = "map_of (rev (recorded g ?as))"
  let ?d' = "d\<lparr>event_activities := map (\<lambda>a. a\<lparr>activity_id := the (name_to_new_id g (name a))\<rparr>) ?as,
                attrs_participants :=
                  map (\<lambda>p. p\<lparr>activities := map_option (map (substitute ?M)) (activities p)\<rparr>)
                    (attrs_participants d),
                attrs_categories := map (substitute ?M) (attrs_categories d)\<rparr>"
  have res: "?M k \<noteq> None" if "k \<in> set (referenced_ids d)" for k
    using refs that recorded_defined [of k ?as g] by auto
  have pres: "\<forall>p\<in>set (attrs_participants d). \<forall>rs. activities p = Some rs \<longrightarrow>
      (\<forall>r\<in>set rs. ?M (ref_activity_id r) \<noteq> None)"
  proof (intro ballI allI impI)
    fix p rs r
    assume "p \<in> set (attrs_participants d)" "activities p = Some rs" "r \<in> set rs"
    then have "ref_activity_id r \<in> set (referenced_ids d)"
      by (force simp: referenced_ids_def)
    then show "?M (ref_activity_id r) \<noteq> None" by (rule res)
  qed
  have cres: "\<forall>r\<in>set (attrs_categories d). ?M (ref_activity_id r) \<noteq> None"
    using res by (simp add: referenced_ids_def)
  have ret: "adjust_ids g d = Returned ?d'"
    by (rule adjust_ids_returns [OF names refs])
  have defs: "list_all2 (remapped_definition g) ?as (event_activities ?d')"
    using names name_to_new_id_dom [of _ g]
    by (fastforce simp: list_all2_map2 remapped_definition_def intro: list_all2_all_nthI list.rel_refl_strong)
  have sub: "remapped_reference g ?as r (substitute ?M r)"
    if "?M (ref_activity_id r) \<noteq> None" for r :: "'a activity_ref"
  proof -
    from that obtain n where n: "?M (ref_activity_id r) = Some n" by auto
    from recorded_origin [OF names n] n show ?thesis
      by (auto simp: remapped_reference_def substitute_def)
  qed
  have cats: "list_all2 (remapped_reference g ?as) (attrs_categories d) (attrs_categories ?d')"
    using cres sub by (auto simp: list_all2_map2 intro: list.rel_refl_strong)
  have parts: "list_all2 (\<lambda>p p'. rel_option (list_all2 (remapped_reference g ?as))
                       (activities p) (activities p'))
             (attrs_participants d) (attrs_participants ?d')"
  proof -
    have "rel_option (list_all2 (remapped_reference g ?as)) (activities p)
            (map_option (map (substitute ?M)) (activities p))"
      if "p \<in> set (attrs_participants d)" for p
    proof (cases "activities p")
      case None
      then show ?thesis by simp
    next
      case (Some rs)
      with pres that have "\<forall>r\<in>set rs. ?M (ref_activity_id r) \<noteq> None" by blast
      with sub have "list_all2 (remapped_reference g ?as) rs (map (substitute ?M) rs)"
        by (auto simp: list_all2_map2 intro: list.rel_refl_strong)
      with Some show ?thesis by simp
    qed
    then show ?thesis
      by (auto simp: list_all2_map2 intro: list.rel_refl_strong)
  qed
  from ret defs parts cats show ?thesis by blast
qed

theorem adjust_ids_referential_integrity_witness:
  "list_all (\<lambda>a. name a \<in> set fixed_names) (event_activities example_document) \<and>
   list_all (\<lambda>k. k \<in> activity_id ` set (event_activities example_document))
     (referenced_ids example_document) \<and>
   (\<exists>d'. adjust_ids example_globals example_document = Returned d' \<and>
      list_all2 (remapped_definition example_globals)
        (event_activities example_document) (event_activities d') \<and>
      list_all2 (\<lambda>p p'. rel_option
          (list_all2 (remapped_reference example_globals (event_activities example_document)))
          (activities p) (activities p'))
        (attrs_participants example_document) (attrs_participants d') \<and>
      list_all2 (remapped_reference example_globals (event_activities example_document))
        (attrs_categories example_document) (attrs_categories d'))"
proof -
  have h1: "\<forall>a\<in>set (event_activities example_document). name a \<in> set fixed_names"
    by (simp add: example_document_def example_activities_def fixed_names_def)
  have h2: "\<forall>k\<in>set (referenced_ids example_document).
      k \<in> activity_id ` set (event_activities example_document)"
    by (simp add: example_document_def example_activities_def referenced_ids_def)
  from adjust_ids_referential_integrity [OF h1 h2, of example_globals] h1 h2
  show ?thesis by (simp add: list_all_iff)
qed

section \<open>A reference without a definition\<close>

lemma referenced_ids_alt:
  "referenced_ids d =
     concat (map participant_ids (attrs_participants d)) @ map ref_activity_id (attrs_categories d)"
  by (simp add: referenced_ids_def participant_ids_def [abs_def])

lemma rewrite_ids_append:
  "rewrite_ids m (xs @ ys) =
     (case rewrite_ids m xs of
        (xs', Some e) \<Rightarrow> (xs' @ ys, Some e)
      | (xs', None) \<Rightarrow> (case rewrite_ids m ys of (ys', e) \<Rightarrow> (xs' @ ys', e)))"
  by (induction xs) (auto split: option.splits prod.splits)

lemma references_loop_ids:
  "references_loop m rs = (rs', e) \<Longrightarrow>
   rewrite_ids m (map ref_activity_id rs) = (map ref_activity_id rs', e)"
  by (induction rs arbitrary: rs' e) (auto split: option.splits prod.splits)

lemma participants_loop_ids:
  "participants_loop m ps = (ps', e) \<Longrightarrow>
   rewrite_ids m (concat (map participant_ids ps)) = (concat (map participant_ids ps'), e)"
proof (induction ps arbitrary: ps' e)
  case Nil
  then show ?case by simp
next
  case (Cons p ps)
  show ?case
  proof (cases "activities p")
    case None
    with Cons.prems obtain ps'' where r: "participants_loop m ps = (ps'', e)" and ps': "ps' = p # ps''"
      by (auto split: prod.splits)
    from Cons.IH [OF r] None ps' show ?thesis
      by (simp add: participant_ids_def)
  next
    case (Some rs)
    obtain rs' e1 where l: "references_loop m rs = (rs', e1)" by (metis surj_pair)
    note ids = references_loop_ids [OF l]
    show ?thesis
    proof (cases e1)
      case None
      with Cons.prems Some l obtain ps'' where r: "participants_loop m ps = (ps'', e)"
        and ps': "ps' = p\<lparr>activities := Some rs'\<rparr> # ps''"
        by (auto split: prod.splits)
      from Cons.IH [OF r] Some ps' ids None show ?thesis
        by (simp add: participant_ids_def rewrite_ids_append)
    next
      case (Some x)
      with Cons.prems \<open>activities p = Some rs\<close> l
      have "ps' = p\<lparr>activities := Some rs'\<rparr> # ps" "e = Some x"
        by auto
      with \<open>activities p = Some rs\<close> ids Some show ?thesis
        by (simp add: participant_ids_def rewrite_ids_append)
    qed
  qed
qed

lemma rewrite_ids_unresolved:
  "\<exists>k\<in>set ks. m k = None \<Longrightarrow>
   \<exists>before k after. ks = before @ k # after \<and> (\<forall>x\<in>set before. m x \<noteq> None) \<and> m k = None \<and>
     rewrite_ids m ks = (map (\<lambda>x. the (m x)) before @ k # after, Some (KeyError k))"
proof (induction ks)
  case Nil
  then show ?case by simp
next
  case (Cons k ks)
  show ?case
  proof (cases "m k")
    case None
    then have "k # ks = [] @ k # ks \<and> (\<forall>x\<in>set []. m x \<noteq> None) \<and> m k = None \<and>
        rewrite_ids m (k # ks) = (map (\<lambda>x. the (m x)) [] @ k # ks, Some (KeyError k))"
      by simp
    then show ?thesis by blast
  next
    case (Some n)
    with Cons.prems have "\<exists>k\<in>set ks. m k = None" by auto
    from Cons.IH [OF this] obtain before k' after where
      ks: "ks = before @ k' # after" and b: "\<forall>x\<in>set before. m x \<noteq> None" and k': "m k' = None"
      and r: "rewrite_ids m ks = (map (\<lambda>x. the (m x)) before @ k' # after, Some (KeyError k'))"
      by blast
    have "k # ks = (k # before) @ k' # after \<and> (\<forall>x\<in>set (k # before). m x \<noteq> None) \<and> m k' = None \<and>
        rewrite_ids m (k # ks) = (map (\<lambda>x. the (m x)) (k # before) @ k' # after, Some (KeyError k'))"
      using ks b k' r Some by simp
    then show ?thesis by blast
  qed
qed

text \<open>
  The passes over the participants and the categories, once line 88's loop has
  completed with the dictionary \<open>m\<close>.
\<close>

lemma adjust_ids_after_definitions:
  assumes "definitions_loop g None Map.empty (event_activities d) = (as', m, None)"
  shows "event_activities (doc_of (adjust_ids g d)) = as' \<and>
         rewrite_ids m (referenced_ids d) =
           (referenced_ids (doc_of (adjust_ids g d)), raised (adjust_ids g d))"
proof -
  obtain ps' e2 where l2: "participants_loop m (attrs_participants d) = (ps', e2)"
    by (metis surj_pair)
  obtain cs' e3 where l3: "references_loop m (attrs_categories d) = (cs', e3)"
    by (metis surj_pair)
  note i2 = participants_loop_ids [OF l2]
  note i3 = references_loop_ids [OF l3]
  show ?thesis
  proof (cases e2)
    case (Some x)
    with assms l2 i2 show ?thesis
      by (simp add: adjust_ids_def referenced_ids_alt rewrite_ids_append)
  next
    case None
    with assms l2 l3 i2 i3 show ?thesis
      by (cases e3) (simp_all add: adjust_ids_def referenced_ids_alt rewrite_ids_append)
  qed
qed

text \<open>
  C3, as the code has it. The claim's second half fails: \<^verbatim>\<open>adjust_ids\<close> works in
  place and undoes nothing. In the template with the category \<open>A9\<close>, the exception
  leaves the four definitions, the participant's activity and the first category
  rewritten.
\<close>

theorem unresolved_reference_mutates:
  "adjust_ids example_globals unresolved_document =
     Raised (KeyError ''A9'')
       \<lparr>doc_id = Some ''#old'',
        event_activities =
          [\<lparr>activity_id = ''#N1'', name = ''Kata'', activity_other = ''individual''\<rparr>,
           \<lparr>activity_id = ''#N2'', name = ''Kumite'', activity_other = ''individual''\<rparr>,
           \<lparr>activity_id = ''#N3'', name = ''Team Kata'', activity_other = ''team''\<rparr>,
           \<lparr>activity_id = ''#N4'', name = ''Coach'', activity_other = ''staff''\<rparr>],
        attrs_participants =
          [\<lparr>activities = Some [\<lparr>ref_activity_id = ''#N2'', ref_other = ''-60kg''\<rparr>],
            participant_other = ''Ann''\<rparr>,
           \<lparr>activities = None, participant_other = ''Bob''\<rparr>],
        attrs_categories =
          [\<lparr>ref_activity_id = ''#N1'', ref_other = ''juniors''\<rparr>,
           \<lparr>ref_activity_id = ''A9'', ref_other = ''seniors''\<rparr>],
        document_other = ''Test''\<rparr> \<and>
   doc_of (adjust_ids example_globals unresolved_document) \<noteq> unresolved_document"
  by (simp add: adjust_ids_def unresolved_document_def example_document_def
      example_activities_def example_globals_def assign_new_id_def)

text \<open>
  C3, amended. Let every definition have one of the four names, and let some
  participant or category refer to an identifier that is no definition's original
  identifier. Then \<^verbatim>\<open>adjust_ids\<close> raises \<^verbatim>\<open>KeyError\<close> with the first such identifier
  \<open>k\<close> in the order of lines 91--97 (the participants' activities, then the
  categories). The document it leaves is changed: every definition holds the new
  identifier of its name, every reference visited before \<open>k\<close> holds the new
  identifier of a definition it referred to, the reference \<open>k\<close> and all later ones are
  as they were, and nothing but \<^verbatim>\<open>activity-id\<close> values differs.
\<close>

theorem unresolved_reference_raises:
  assumes names: "\<forall>a\<in>set (event_activities d). name a \<in> set fixed_names"
    and unresolved: "\<exists>k\<in>set (referenced_ids d). k \<notin> activity_id ` set (event_activities d)"
  shows "\<exists>d' before k after before'.
      adjust_ids g d = Raised (KeyError k) d' \<and>
      referenced_ids d = before @ k # after \<and>
      set before \<subseteq> activity_id ` set (event_activities d) \<and>
      k \<notin> activity_id ` set (event_activities d) \<and>
      list_all2 (remapped_definition g) (event_activities d) (event_activities d') \<and>
      referenced_ids d' = before' @ k # after \<and>
      list_all2 (\<lambda>k k'. \<exists>a\<in>set (event_activities d). activity_id a = k \<and>
          name_to_new_id g (name a) = Some k') before before' \<and>
      without_ids d' = without_ids d"
proof -
  let ?as = "event_activities d"
  let ?M = "map_of (rev (recorded g ?as))"
  let ?out = "adjust_ids g d"
  have l1: "definitions_loop g None Map.empty ?as =
      (map (\<lambda>a. a\<lparr>activity_id := the (name_to_new_id g (name a))\<rparr>) ?as, ?M, None)"
    using definitions_loop_fixed [OF names, of g None Map.empty] by simp
  note after = adjust_ids_after_definitions [OF l1]
  have dom: "?M k = None \<longleftrightarrow> k \<notin> activity_id ` set ?as" for k
  proof
    assume "?M k = None"
    then show "k \<notin> activity_id ` set ?as"
      using recorded_defined [of k ?as g] by auto
  next
    assume "k \<notin> activity_id ` set ?as"
    then have "k \<notin> fst ` set (rev (recorded g ?as))"
      by (force simp: recorded_def)
    then show "?M k = None" by (simp add: map_of_eq_None_iff)
  qed
  from unresolved have "\<exists>k\<in>set (referenced_ids d). ?M k = None"
    by (simp add: dom)
  from rewrite_ids_unresolved [OF this] obtain before k after where
    ids: "referenced_ids d = before @ k # after"
    and b: "\<forall>x\<in>set before. ?M x \<noteq> None"
    and k: "?M k = None"
    and r: "rewrite_ids ?M (referenced_ids d) =
        (map (\<lambda>x. the (?M x)) before @ k # after, Some (KeyError k))"
    by blast
  from after r have ids': "referenced_ids (doc_of ?out) = map (\<lambda>x. the (?M x)) before @ k # after"
    and e: "raised ?out = Some (KeyError k)"
    by simp_all
  from e obtain d' where out: "?out = Raised (KeyError k) d'"
    by (cases ?out) simp_all
  have defs: "list_all2 (remapped_definition g) ?as (event_activities d')"
  proof -
    have "event_activities d' = map (\<lambda>a. a\<lparr>activity_id := the (name_to_new_id g (name a))\<rparr>) ?as"
      using after out by simp
    then show ?thesis
      using names name_to_new_id_dom [of _ g]
      by (fastforce simp: list_all2_map2 remapped_definition_def intro: list.rel_refl_strong)
  qed
  have bef: "list_all2 (\<lambda>k k'. \<exists>a\<in>set ?as. activity_id a = k \<and>
          name_to_new_id g (name a) = Some k') before (map (\<lambda>x. the (?M x)) before)"
  proof -
    have "\<exists>a\<in>set ?as. activity_id a = x \<and> name_to_new_id g (name a) = Some (the (?M x))"
      if "x \<in> set before" for x
    proof -
      from b that obtain n where n: "?M x = Some n" by auto
      from recorded_origin [OF names n] n show ?thesis by simp
    qed
    then show ?thesis
      by (auto simp: list_all2_map2 intro: list.rel_refl_strong)
  qed
  have sb: "set before \<subseteq> activity_id ` set ?as"
    using b dom by blast
  have fr: "without_ids d' = without_ids d"
    using adjust_ids_without_ids [of g d] out by simp
  have knot: "k \<notin> activity_id ` set ?as"
    using k dom by simp
  have ids2: "referenced_ids d' = map (\<lambda>x. the (?M x)) before @ k # after"
    using ids' out by simp
  show ?thesis
  proof (intro exI conjI)
    show "adjust_ids g d = Raised (KeyError k) d'" by (rule out)
    show "referenced_ids d = before @ k # after" by (rule ids)
    show "set before \<subseteq> activity_id ` set ?as" by (rule sb)
    show "k \<notin> activity_id ` set ?as" by (rule knot)
    show "list_all2 (remapped_definition g) ?as (event_activities d')" by (rule defs)
    show "referenced_ids d' = map (\<lambda>x. the (?M x)) before @ k # after" by (rule ids2)
    show "list_all2 (\<lambda>k k'. \<exists>a\<in>set ?as. activity_id a = k \<and>
          name_to_new_id g (name a) = Some k') before (map (\<lambda>x. the (?M x)) before)"
      by (rule bef)
    show "without_ids d' = without_ids d" by (rule fr)
  qed
qed

theorem unresolved_reference_raises_witness:
  "list_all (\<lambda>a. name a \<in> set fixed_names) (event_activities unresolved_document) \<and>
   list_ex (\<lambda>k. k \<notin> activity_id ` set (event_activities unresolved_document))
     (referenced_ids unresolved_document) \<and>
   (\<exists>d' before k after before'.
      adjust_ids example_globals unresolved_document = Raised (KeyError k) d' \<and>
      referenced_ids unresolved_document = before @ k # after \<and>
      set before \<subseteq> activity_id ` set (event_activities unresolved_document) \<and>
      k \<notin> activity_id ` set (event_activities unresolved_document) \<and>
      list_all2 (remapped_definition example_globals)
        (event_activities unresolved_document) (event_activities d') \<and>
      referenced_ids d' = before' @ k # after \<and>
      list_all2 (\<lambda>k k'. \<exists>a\<in>set (event_activities unresolved_document). activity_id a = k \<and>
          name_to_new_id example_globals (name a) = Some k') before before' \<and>
      without_ids d' = without_ids unresolved_document)"
proof -
  have h1: "\<forall>a\<in>set (event_activities unresolved_document). name a \<in> set fixed_names"
    by (simp add: unresolved_document_def example_document_def example_activities_def
        fixed_names_def)
  have h2: "\<exists>k\<in>set (referenced_ids unresolved_document).
      k \<notin> activity_id ` set (event_activities unresolved_document)"
    by (simp add: unresolved_document_def example_document_def example_activities_def
        referenced_ids_def)
  have a1: "list_all (\<lambda>a. name a \<in> set fixed_names) (event_activities unresolved_document)"
    using h1 by (simp only: list_all_iff)
  have a2: "list_ex (\<lambda>k. k \<notin> activity_id ` set (event_activities unresolved_document))
     (referenced_ids unresolved_document)"
    using h2 by (simp only: list_ex_iff)
  from a1 a2 unresolved_reference_raises [OF h1 h2, of example_globals]
  show ?thesis by (intro conjI)
qed

section \<open>The wait loop\<close>

lemma polls_Suc: "polls iv (Suc k) = [HeadObject, Sleep iv] @ polls iv k"
  by (simp add: polls_def)

lemma checks_polls: "checks (polls iv k) = k"
  by (induction k) (simp_all add: polls_def checks_def)

lemma publishes_polls: "publishes (polls iv k) = 0"
  by (induction k) (simp_all add: polls_def publishes_def)

lemma checks_append: "checks (xs @ ys) = checks xs + checks ys"
  by (simp add: checks_def)

lemma publishes_append: "publishes (xs @ ys) = publishes xs + publishes ys"
  by (simp add: publishes_def)

lemma wait_loop_polls:
  assumes "0 \<le> iv"
    and "\<forall>i<k. reports_not_found (head (n + i))"
    and "\<forall>i<k. t + int i * iv < mx"
  shows "wait_loop mx iv head t n tr =
         wait_loop mx iv head (t + int k * iv) (n + k) (tr @ polls iv k)"
  using assms(2,3)
proof (induction k arbitrary: t n tr)
  case 0
  show ?case by (simp add: polls_def)
next
  case (Suc k)
  from Suc.prems(2) have t: "t < mx" by force
  from Suc.prems(1) have "reports_not_found (head n)" by force
  then obtain e where e: "head n = Some e" "not_found e"
    by (auto simp: reports_not_found_def split: option.splits)
  have step: "wait_loop mx iv head t n tr =
      wait_loop mx iv head (t + iv) (Suc n) (tr @ [HeadObject, Sleep iv])"
    using t e assms(1) by (subst wait_loop.simps) simp
  have p1: "\<forall>i<k. reports_not_found (head (Suc n + i))"
    using Suc.prems(1) by (metis Suc_less_eq add_Suc_shift)
  have p2: "\<forall>i<k. t + iv + int i * iv < mx"
  proof (intro allI impI)
    fix i assume "i < k"
    then have "t + int (Suc i) * iv < mx" using Suc.prems(2) by blast
    then show "t + iv + int i * iv < mx" by (simp add: algebra_simps)
  qed
  have "wait_loop mx iv head (t + iv) (Suc n) (tr @ [HeadObject, Sleep iv]) =
        wait_loop mx iv head (t + iv + int k * iv) (Suc n + k)
          ((tr @ [HeadObject, Sleep iv]) @ polls iv k)"
    by (rule Suc.IH [OF p1 p2])
  with step show ?case by (simp add: polls_Suc algebra_simps)
qed

text \<open>
  C5. Let the interval be non-negative (it is \<open>10\<close> in the script) and
  \<open>k * wait_interval_seconds < max_wait_seconds\<close>. If the first \<open>k\<close> existence checks
  report "not found" and the next one finds the object, lines 145--167 make \<open>k\<close> rounds
  of a check and a sleep, one more check, and one call of \<^verbatim>\<open>put_object\<close>, in this
  order and nothing else: \<open>k + 1\<close> checks and one publish call. The block ends as the
  call of \<^verbatim>\<open>put_object\<close> does.
\<close>

theorem found_after_k_polls:
  assumes "0 \<le> wait_interval_seconds"
    and "int k * wait_interval_seconds < max_wait_seconds"
    and "\<forall>i<k. reports_not_found (head i)"
    and "head k = None"
  shows "await_then_publish max_wait_seconds wait_interval_seconds head put body =
           Some (polls wait_interval_seconds k @ [HeadObject, PutObject body], put) \<and>
         checks (polls wait_interval_seconds k @ [HeadObject, PutObject body]) = k + 1 \<and>
         publishes (polls wait_interval_seconds k @ [HeadObject, PutObject body]) = 1"
proof -
  let ?iv = wait_interval_seconds and ?mx = max_wait_seconds
  have before: "\<forall>i<k. 0 + int i * ?iv < ?mx"
  proof (intro allI impI)
    fix i assume "i < k"
    then have "int i * ?iv \<le> int k * ?iv"
      using assms(1) by (simp add: mult_right_mono)
    with assms(2) show "0 + int i * ?iv < ?mx" by simp
  qed
  have "wait_loop ?mx ?iv head 0 0 ([] :: 'a event list) =
        wait_loop ?mx ?iv head (0 + int k * ?iv) (0 + k) ([] @ polls ?iv k)"
    using assms(1) _ before by (rule wait_loop_polls) (simp add: assms(3))
  also have "\<dots> = Some (Break, int k * ?iv, polls ?iv k @ [HeadObject])"
    using assms(2,4) by (subst wait_loop.simps) simp
  finally have "await_then_publish ?mx ?iv head put body =
      Some (polls ?iv k @ [HeadObject, PutObject body], put)"
    by (simp add: await_then_publish_def)
  then show ?thesis
    by (simp add: checks_append publishes_append checks_polls publishes_polls)
      (simp add: checks_def publishes_def)
qed

theorem found_after_k_polls_witness:
  "(0::int) \<le> 10 \<and> int 2 * 10 < 300 \<and>
   list_all (\<lambda>i. reports_not_found (found_at_third i)) [0..<2] \<and>
   found_at_third 2 = None \<and>
   await_then_publish 300 10 found_at_third None example_document =
     Some (polls 10 2 @ [HeadObject, PutObject example_document], None) \<and>
   checks (polls 10 2 @ [HeadObject, PutObject example_document]) = 2 + 1 \<and>
   publishes (polls 10 2 @ [HeadObject, PutObject example_document]) = 1"
proof -
  have h1: "(0::int) \<le> 10" and h2: "int 2 * 10 < 300" by simp_all
  have h3: "\<forall>i<2. reports_not_found (found_at_third i)"
    by (simp add: found_at_third_def reports_not_found_def not_found_def)
  have h4: "found_at_third 2 = None"
    by (simp add: found_at_third_def)
  have "list_all (\<lambda>i. reports_not_found (found_at_third i)) [0..<2]"
    using h3 by (simp add: list_all_iff)
  with found_after_k_polls [OF h1 h2 h3 h4, of None example_document] h4
  show ?thesis by simp
qed

lemma wait_loop_exhausted:
  assumes "0 < iv" and "\<forall>i. reports_not_found (head i)"
  shows "wait_loop mx iv head 0 0 tr =
           Some (Exhausted, int (nat \<lceil>real_of_int mx / real_of_int iv\<rceil>) * iv,
             tr @ polls iv (nat \<lceil>real_of_int mx / real_of_int iv\<rceil>))"
proof -
  let ?N = "nat \<lceil>real_of_int mx / real_of_int iv\<rceil>"
  have before: "\<forall>i<?N. 0 + int i * iv < mx"
  proof (intro allI impI)
    fix i assume "i < ?N"
    then have "int i < \<lceil>real_of_int mx / real_of_int iv\<rceil>" by linarith
    then have "real_of_int (int i) < real_of_int mx / real_of_int iv"
      by (simp add: less_ceiling_iff)
    then have "real_of_int (int i) * real_of_int iv < real_of_int mx"
      using assms(1) by (simp add: pos_less_divide_eq)
    then have "real_of_int (int i * iv) < real_of_int mx" by simp
    then show "0 + int i * iv < mx" by linarith
  qed
  have "real_of_int mx / real_of_int iv \<le> real_of_int \<lceil>real_of_int mx / real_of_int iv\<rceil>"
    by (rule le_of_int_ceiling)
  also have "\<dots> \<le> real_of_int (int ?N)"
    by simp
  finally have "real_of_int mx / real_of_int iv \<le> real_of_int (int ?N)" .
  then have "real_of_int mx \<le> real_of_int (int ?N) * real_of_int iv"
    using assms(1) by (simp add: pos_divide_le_eq)
  then have "real_of_int mx \<le> real_of_int (int ?N * iv)" by simp
  then have after: "\<not> int ?N * iv < mx" by linarith
  from assms(1) have nonneg: "0 \<le> iv" by simp
  have "wait_loop mx iv head 0 0 tr =
        wait_loop mx iv head (0 + int ?N * iv) (0 + ?N) (tr @ polls iv ?N)"
    using nonneg _ before by (rule wait_loop_polls) (simp add: assms(2))
  also have "\<dots> = Some (Exhausted, int ?N * iv, tr @ polls iv ?N)"
    using after by (subst wait_loop.simps) simp
  finally show ?thesis .
qed

text \<open>
  C6. Let the interval be positive. If every existence check reports "not found", the
  loop makes \<open>\<lceil>max_wait_seconds / wait_interval_seconds\<rceil>\<close> checks (none when
  \<open>max_wait_seconds\<close> is not positive), each followed by a sleep, and ends by its
  condition, not by an exception; then \<^verbatim>\<open>put_object\<close> is called once, and the block
  ends as that call does. With the script's \<open>300\<close> and \<open>10\<close> these are \<open>30\<close> checks.
\<close>

theorem never_found_times_out:
  assumes "0 < wait_interval_seconds"
    and "\<forall>i. reports_not_found (head i)"
  shows "await_then_publish max_wait_seconds wait_interval_seconds head put body =
           Some (polls wait_interval_seconds
                   (nat \<lceil>real_of_int max_wait_seconds / real_of_int wait_interval_seconds\<rceil>)
                 @ [PutObject body], put) \<and>
         checks (polls wait_interval_seconds
                   (nat \<lceil>real_of_int max_wait_seconds / real_of_int wait_interval_seconds\<rceil>)
                 @ [PutObject body :: 'a event]) =
           nat \<lceil>real_of_int max_wait_seconds / real_of_int wait_interval_seconds\<rceil> \<and>
         publishes (polls wait_interval_seconds
                   (nat \<lceil>real_of_int max_wait_seconds / real_of_int wait_interval_seconds\<rceil>)
                 @ [PutObject body]) = 1"
  using wait_loop_exhausted [OF assms, of max_wait_seconds "[] :: 'a event list"]
  by (simp add: await_then_publish_def checks_append publishes_append checks_polls publishes_polls)
    (simp add: checks_def publishes_def)

theorem never_found_times_out_witness:
  "(0::int) < 10 \<and>
   (\<forall>i. reports_not_found (never_found i)) \<and>
   nat \<lceil>real_of_int 300 / real_of_int 10\<rceil> = 30 \<and>
   await_then_publish 300 10 never_found None example_document =
     Some (polls 10 30 @ [PutObject example_document], None) \<and>
   checks (polls 10 30 @ [PutObject example_document]) = 30 \<and>
   publishes (polls 10 30 @ [PutObject example_document]) = 1"
proof -
  have h1: "(0::int) < 10" by simp
  have h2: "\<forall>i. reports_not_found (never_found i)"
    by (simp add: never_found_def reports_not_found_def not_found_def)
  have n: "nat \<lceil>real_of_int 300 / real_of_int 10\<rceil> = 30" by simp
  from never_found_times_out [OF h1 h2, of 300 None example_document] h2 n
  show ?thesis by simp
qed

text \<open>
  C7. Let the interval be non-negative (it is \<open>10\<close> in the script), let the existence
  checks before the \<open>j\<close>-th report "not found", and let
  \<open>j * wait_interval_seconds < max_wait_seconds\<close>, so that the \<open>j\<close>-th check is made. If
  that check raises an exception that line 154 does not take for "not found", lines
  145--167 end with that exception: the failing check is the last event, it is check
  number \<open>j + 1\<close>, and \<^verbatim>\<open>put_object\<close> is not called. The only \<^verbatim>\<open>except\<close> clause around
  these lines (line 176) is for \<^verbatim>\<open>requests.exceptions.RequestException\<close>.
\<close>

theorem head_object_error_aborts:
  assumes "0 \<le> wait_interval_seconds"
    and "int j * wait_interval_seconds < max_wait_seconds"
    and "\<forall>i<j. reports_not_found (head i)"
    and "head j = Some x"
    and "\<not> not_found x"
  shows "await_then_publish max_wait_seconds wait_interval_seconds head put (body :: 'a document) =
           Some (polls wait_interval_seconds j @ [HeadObject], Some x) \<and>
         checks (polls wait_interval_seconds j @ [HeadObject :: 'a event]) = j + 1 \<and>
         publishes (polls wait_interval_seconds j @ [HeadObject :: 'a event]) = 0"
proof -
  let ?iv = wait_interval_seconds and ?mx = max_wait_seconds
  have before: "\<forall>i<j. 0 + int i * ?iv < ?mx"
  proof (intro allI impI)
    fix i assume "i < j"
    then have "int i * ?iv \<le> int j * ?iv"
      using assms(1) by (simp add: mult_right_mono)
    with assms(2) show "0 + int i * ?iv < ?mx" by simp
  qed
  have "wait_loop ?mx ?iv head 0 0 ([] :: 'a event list) =
        wait_loop ?mx ?iv head (0 + int j * ?iv) (0 + j) ([] @ polls ?iv j)"
    using assms(1) _ before by (rule wait_loop_polls) (simp add: assms(3))
  also have "\<dots> = Some (LoopRaised x, int j * ?iv, polls ?iv j @ [HeadObject])"
    using assms(2,4,5) by (subst wait_loop.simps) simp
  finally have "await_then_publish ?mx ?iv head put body =
      Some (polls ?iv j @ [HeadObject], Some x)"
    by (simp add: await_then_publish_def)
  then show ?thesis
    by (simp add: checks_append publishes_append checks_polls publishes_polls)
      (simp add: checks_def publishes_def)
qed

theorem head_object_error_aborts_witness:
  "(0::int) \<le> 10 \<and> int 2 * 10 < 300 \<and>
   list_all (\<lambda>i. reports_not_found (denied_at_third i)) [0..<2] \<and>
   denied_at_third 2 = Some (ClientError ''403'') \<and>
   \<not> not_found (ClientError ''403'') \<and>
   await_then_publish 300 10 denied_at_third None example_document =
     Some (polls 10 2 @ [HeadObject], Some (ClientError ''403'')) \<and>
   checks (polls 10 2 @ [HeadObject :: string event]) = 2 + 1 \<and>
   publishes (polls 10 2 @ [HeadObject :: string event]) = 0"
proof -
  have h1: "(0::int) \<le> 10" and h2: "int 2 * 10 < 300" by simp_all
  have h3: "\<forall>i<2. reports_not_found (denied_at_third i)"
    by (simp add: denied_at_third_def reports_not_found_def not_found_def)
  have h4: "denied_at_third 2 = Some (ClientError ''403'')"
    by (simp add: denied_at_third_def)
  have h5: "\<not> not_found (ClientError ''403'')"
    by (simp add: not_found_def)
  have a3: "list_all (\<lambda>i. reports_not_found (denied_at_third i)) [0..<2]"
    using h3 by (simp add: list_all_iff)
  from head_object_error_aborts [OF h1 h2 h3 h4 h5, of None example_document] h1 h2 a3 h4 h5
  show ?thesis by simp
qed

section \<open>The identifiers of the command and of the document\<close>

lemma definitions_loop_writes_assigned:
  "definitions_loop g v m as = (as', m', None) \<Longrightarrow>
   list_all2 (\<lambda>a a'. name a \<in> set fixed_names \<longrightarrow>
       name_to_new_id g (name a) = Some (activity_id a')) as as'"
proof (induction as arbitrary: v m as' m')
  case Nil
  then show ?case by simp
next
  case (Cons a as)
  from Cons.prems obtain n as'' where n: "assign_new_id g (name a) v = Some n"
    and rest: "definitions_loop g (Some n) (m(activity_id a \<mapsto> n)) as = (as'', m', None)"
    and as': "as' = a\<lparr>activity_id := n\<rparr> # as''"
    by (auto split: option.splits prod.splits)
  have "name a \<in> set fixed_names \<longrightarrow> name_to_new_id g (name a) = Some n"
    using n by (auto simp: assign_new_id_fixed)
  with Cons.IH [OF rest] as' show ?case by simp
qed

text \<open>
  C8. In the calls of lines 10--100 the command is posted last, after the seven calls
  of \<^verbatim>\<open>uuid4\<close>: the event's identifier in the posted envelope and the identifier of
  each of its activities is \<open>#\<close> followed by a value that a call of \<^verbatim>\<open>uuid4\<close> before the
  post produced. The envelope lists the four names, and whenever \<^verbatim>\<open>adjust_ids\<close>, run
  with the identifiers these lines generated, returns, every definition whose name is
  one of the four holds the \<^verbatim>\<open>activity-id\<close> the envelope gives to that name.
\<close>

theorem command_and_document_share_identifiers:
  assumes "adjust_ids (allocate e) d = Returned d'"
  shows "\<exists>gen c. submit_command e = gen @ [HttpPost c] \<and>
           c = data (allocate e) \<and>
           list_all (\<lambda>ev. case ev of HttpPost c' \<Rightarrow> False | _ \<Rightarrow> True) gen \<and>
           list_all (\<lambda>cmd. \<exists>u. Uuid4 u \<in> set gen \<and> cmd_event_id cmd = ''#'' @ u) (commands c) \<and>
           list_all (\<lambda>a. \<exists>u. Uuid4 u \<in> set gen \<and> activity_id a = ''#'' @ u)
             (concat (map attrs_activities (commands c))) \<and>
           map name (concat (map attrs_activities (commands c))) = fixed_names \<and>
           list_all2 (\<lambda>a a'. name a \<in> set fixed_names \<longrightarrow>
               command_activity_ids c (name a) = Some (activity_id a'))
             (event_activities d) (event_activities d')"
proof -
  let ?gen = "[Uuid4 (uuid4 e 0), Now, Uuid4 (uuid4 e 1), Uuid4 (uuid4 e 2),
      Uuid4 (uuid4 e 3), Uuid4 (uuid4 e 4), Uuid4 (uuid4 e 5), Uuid4 (uuid4 e 6)] :: 'b event list"
  let ?c = "data (allocate e)"
  from assms obtain m where
    "definitions_loop (allocate e) None Map.empty (event_activities d) = (event_activities d', m, None)"
    by (auto simp: adjust_ids_def split: prod.splits option.splits)
  from definitions_loop_writes_assigned [OF this]
  have w: "list_all2 (\<lambda>a a'. name a \<in> set fixed_names \<longrightarrow>
               command_activity_ids ?c (name a) = Some (activity_id a'))
             (event_activities d) (event_activities d')"
    by (simp add: name_to_new_id_def)
  have s: "submit_command e = ?gen @ [HttpPost ?c]"
    by (simp add: submit_command_def)
  have p: "list_all (\<lambda>ev. case ev of HttpPost c' \<Rightarrow> False | _ \<Rightarrow> True) ?gen"
    by simp
  have ev: "list_all (\<lambda>cmd. \<exists>u. Uuid4 u \<in> set ?gen \<and> cmd_event_id cmd = ''#'' @ u) (commands ?c)"
    by (simp add: data_def allocate_def)
  have act: "list_all (\<lambda>a. \<exists>u. Uuid4 u \<in> set ?gen \<and> activity_id a = ''#'' @ u)
             (concat (map attrs_activities (commands ?c)))"
    by (simp add: data_def allocate_def)
  have nm: "map name (concat (map attrs_activities (commands ?c))) = fixed_names"
    by (simp add: data_def fixed_names_def)
  from s p ev act nm w show ?thesis by blast
qed

theorem command_and_document_share_identifiers_witness:
  "\<exists>d'. adjust_ids (allocate example_env) example_document = Returned d' \<and>
     (\<exists>gen c. submit_command example_env = (gen :: string event list) @ [HttpPost c] \<and>
           c = data (allocate example_env) \<and>
           list_all (\<lambda>ev. case ev of HttpPost c' \<Rightarrow> False | _ \<Rightarrow> True) gen \<and>
           list_all (\<lambda>cmd. \<exists>u. Uuid4 u \<in> set gen \<and> cmd_event_id cmd = ''#'' @ u) (commands c) \<and>
           list_all (\<lambda>a. \<exists>u. Uuid4 u \<in> set gen \<and> activity_id a = ''#'' @ u)
             (concat (map attrs_activities (commands c))) \<and>
           map name (concat (map attrs_activities (commands c))) = fixed_names \<and>
           list_all2 (\<lambda>a a'. name a \<in> set fixed_names \<longrightarrow>
               command_activity_ids c (name a) = Some (activity_id a'))
             (event_activities example_document) (event_activities d'))"
proof -
  have "raised (adjust_ids (allocate example_env) example_document) = None"
    by (simp add: example_env_def allocate_def example_document_def
        example_activities_def adjust_ids_def assign_new_id_def)
  then obtain d' where d': "adjust_ids (allocate example_env) example_document = Returned d'"
    by (cases "adjust_ids (allocate example_env) example_document") simp_all
  have "\<exists>gen c. submit_command example_env = (gen :: string event list) @ [HttpPost c] \<and>
           c = data (allocate example_env) \<and>
           list_all (\<lambda>ev. case ev of HttpPost c' \<Rightarrow> False | _ \<Rightarrow> True) gen \<and>
           list_all (\<lambda>cmd. \<exists>u. Uuid4 u \<in> set gen \<and> cmd_event_id cmd = ''#'' @ u) (commands c) \<and>
           list_all (\<lambda>a. \<exists>u. Uuid4 u \<in> set gen \<and> activity_id a = ''#'' @ u)
             (concat (map attrs_activities (commands c))) \<and>
           map name (concat (map attrs_activities (commands c))) = fixed_names \<and>
           list_all2 (\<lambda>a a'. name a \<in> set fixed_names \<longrightarrow>
               command_activity_ids c (name a) = Some (activity_id a'))
             (event_activities example_document) (event_activities d')"
    by (rule command_and_document_share_identifiers [OF d'])
  with d' show ?thesis by (intro exI [of _ d'] conjI)
qed

section \<open>A name that is none of the four\<close>

text \<open>
  C2, on the code. No test of lines 79--86 matches the name Sumo, and there is no
  \<^verbatim>\<open>else\<close>. After a Kata the variable \<^verbatim>\<open>new_activity_id\<close> still holds Kata's
  identifier: the Sumo definition and the category that refers to it receive it, and
  the function returns. As the first definition, the name meets the variable unbound:
  line 87 raises \<^verbatim>\<open>UnboundLocalError\<close> and the document is as it was.
\<close>

theorem unknown_name_takes_previous_identifier:
  "adjust_ids example_globals sumo_second =
     Returned
       \<lparr>doc_id = None,
        event_activities =
          [\<lparr>activity_id = ''#N1'', name = ''Kata'', activity_other = ''individual''\<rparr>,
           \<lparr>activity_id = ''#N1'', name = ''Sumo'', activity_other = ''individual''\<rparr>],
        attrs_participants = [],
        attrs_categories = [\<lparr>ref_activity_id = ''#N1'', ref_other = ''open''\<rparr>],
        document_other = ''Test''\<rparr> \<and>
   adjust_ids example_globals sumo_first =
     Raised (UnboundLocalError ''new_activity_id'') sumo_first"
  by (simp add: adjust_ids_def sumo_second_def sumo_first_def example_globals_def
      assign_new_id_def)

section \<open>Definitions that share a name\<close>

text \<open>
  C9, as stated, fails twice on one document. Two definitions are named Kata, with the
  distinct original identifiers \<open>A1\<close> and \<open>A2\<close>; a Kumite defined after them has the
  original identifier \<open>A1\<close> as well, and the category refers to \<open>A9\<close>. The call fails
  with \<^verbatim>\<open>KeyError\<close>, and line 88 has overwritten the entry of \<open>A1\<close>: the dictionary
  sends it to Kumite's new identifier, not to Kata's.
\<close>

theorem shared_name_can_fail:
  "name (event_activities twice_kata_unresolved ! 0) = ''Kata'' \<and>
   name (event_activities twice_kata_unresolved ! 1) = ''Kata'' \<and>
   activity_id (event_activities twice_kata_unresolved ! 0) = ''A1'' \<and>
   activity_id (event_activities twice_kata_unresolved ! 1) = ''A2'' \<and>
   raised (adjust_ids example_globals twice_kata_unresolved) = Some (KeyError ''A9'') \<and>
   name_to_new_id example_globals ''Kata'' = Some ''#N1'' \<and>
   activity_id_map example_globals twice_kata_unresolved ''A1'' = Some ''#N2''"
  by (simp add: adjust_ids_def activity_id_map_def twice_kata_unresolved_def
      example_globals_def assign_new_id_def name_to_new_id_def command_activity_ids_def data_def)

text \<open>
  C9, amended. Let every definition have one of the four names and every reference
  resolve. If the definitions at positions \<open>i\<close> and \<open>j\<close> share a name, then
  \<^verbatim>\<open>adjust_ids\<close> returns and both definitions hold the one new identifier of that name;
  and \<^verbatim>\<open>activity_id_map\<close> sends the original identifier of each of the two to that new
  identifier, provided no definition of another name has that same original
  identifier.
\<close>

theorem shared_name_shares_identifier:
  assumes names: "\<forall>a\<in>set (event_activities d). name a \<in> set fixed_names"
    and refs: "\<forall>k\<in>set (referenced_ids d). k \<in> activity_id ` set (event_activities d)"
    and ij: "i < j" "j < length (event_activities d)"
    and same: "name (event_activities d ! i) = name (event_activities d ! j)"
  shows "\<exists>d' n. adjust_ids g d = Returned d' \<and>
      name_to_new_id g (name (event_activities d ! i)) = Some n \<and>
      activity_id (event_activities d' ! i) = n \<and>
      activity_id (event_activities d' ! j) = n \<and>
      ((\<forall>c\<in>set (event_activities d).
          activity_id c = activity_id (event_activities d ! i) \<longrightarrow>
          name c = name (event_activities d ! i)) \<longrightarrow>
       activity_id_map g d (activity_id (event_activities d ! i)) = Some n) \<and>
      ((\<forall>c\<in>set (event_activities d).
          activity_id c = activity_id (event_activities d ! j) \<longrightarrow>
          name c = name (event_activities d ! j)) \<longrightarrow>
       activity_id_map g d (activity_id (event_activities d ! j)) = Some n)"
proof -
  let ?as = "event_activities d"
  let ?M = "map_of (rev (recorded g ?as))"
  let ?d' = "d\<lparr>event_activities :=
                   map (\<lambda>a. a\<lparr>activity_id := the (name_to_new_id g (name a))\<rparr>) ?as,
                 attrs_participants :=
                   map (\<lambda>p. p\<lparr>activities := map_option (map (substitute ?M)) (activities p)\<rparr>)
                     (attrs_participants d),
                 attrs_categories := map (substitute ?M) (attrs_categories d)\<rparr>"
  from ij have i: "i < length ?as" by simp
  from i have ai: "?as ! i \<in> set ?as" by simp
  from ij have aj: "?as ! j \<in> set ?as" by simp
  from names ai obtain n where n: "name_to_new_id g (name (?as ! i)) = Some n"
    using name_to_new_id_dom by blast
  have ret: "adjust_ids g d = Returned ?d'"
    by (rule adjust_ids_returns [OF names refs])
  have l1: "definitions_loop g None Map.empty ?as =
      (map (\<lambda>a. a\<lparr>activity_id := the (name_to_new_id g (name a))\<rparr>) ?as, ?M, None)"
    using definitions_loop_fixed [OF names, of g None Map.empty] by simp
  then have m: "activity_id_map g d = ?M"
    by (simp add: activity_id_map_def)
  have look: "?M (activity_id b) = Some n"
    if b: "b \<in> set ?as" and nb: "name b = name (?as ! i)"
      and own: "\<forall>c\<in>set ?as. activity_id c = activity_id b \<longrightarrow> name c = name b"
    for b
  proof -
    from b obtain v where v: "?M (activity_id b) = Some v"
      using recorded_defined [of "activity_id b" ?as g] by auto
    from recorded_origin [OF names v] obtain a where
      a: "a \<in> set ?as" "activity_id a = activity_id b" "name_to_new_id g (name a) = Some v"
      by blast
    from own a nb have "name a = name (?as ! i)" by auto
    with a n v show ?thesis by simp
  qed
  have di: "activity_id (event_activities ?d' ! i) = n"
    using i n by simp
  have dj: "activity_id (event_activities ?d' ! j) = n"
    using ij n same by simp
  have mi: "(\<forall>c\<in>set ?as. activity_id c = activity_id (?as ! i) \<longrightarrow> name c = name (?as ! i)) \<longrightarrow>
       activity_id_map g d (activity_id (?as ! i)) = Some n"
    using look [OF ai] m by simp
  have mj: "(\<forall>c\<in>set ?as. activity_id c = activity_id (?as ! j) \<longrightarrow> name c = name (?as ! j)) \<longrightarrow>
       activity_id_map g d (activity_id (?as ! j)) = Some n"
    using look [OF aj] m same by simp
  from ret n di dj mi mj show ?thesis by blast
qed

theorem shared_name_shares_identifier_witness:
  "list_all (\<lambda>a. name a \<in> set fixed_names) (event_activities twice_kata) \<and>
   list_all (\<lambda>k. k \<in> activity_id ` set (event_activities twice_kata)) (referenced_ids twice_kata) \<and>
   (0::nat) < 1 \<and> 1 < length (event_activities twice_kata) \<and>
   name (event_activities twice_kata ! 0) = name (event_activities twice_kata ! 1) \<and>
   list_all (\<lambda>c. if activity_id c = activity_id (event_activities twice_kata ! 0)
                  then name c = name (event_activities twice_kata ! 0) else True)
     (event_activities twice_kata) \<and>
   list_all (\<lambda>c. if activity_id c = activity_id (event_activities twice_kata ! 1)
                  then name c = name (event_activities twice_kata ! 1) else True)
     (event_activities twice_kata) \<and>
   (\<exists>d' n. adjust_ids example_globals twice_kata = Returned d' \<and>
      name_to_new_id example_globals (name (event_activities twice_kata ! 0)) = Some n \<and>
      activity_id (event_activities d' ! 0) = n \<and>
      activity_id (event_activities d' ! 1) = n \<and>
      activity_id_map example_globals twice_kata (activity_id (event_activities twice_kata ! 0)) = Some n \<and>
      activity_id_map example_globals twice_kata (activity_id (event_activities twice_kata ! 1)) = Some n)"
proof -
  have h1: "\<forall>a\<in>set (event_activities twice_kata). name a \<in> set fixed_names"
    by (simp add: twice_kata_def fixed_names_def)
  have h2: "\<forall>k\<in>set (referenced_ids twice_kata). k \<in> activity_id ` set (event_activities twice_kata)"
    by (simp add: twice_kata_def referenced_ids_def)
  have h3: "(0::nat) < 1" by simp
  have h4: "1 < length (event_activities twice_kata)"
    by (simp add: twice_kata_def)
  have h5: "name (event_activities twice_kata ! 0) = name (event_activities twice_kata ! 1)"
    by (simp add: twice_kata_def)
  have o0: "\<forall>c\<in>set (event_activities twice_kata).
        activity_id c = activity_id (event_activities twice_kata ! 0) \<longrightarrow>
        name c = name (event_activities twice_kata ! 0)"
    by (simp add: twice_kata_def)
  have o1: "\<forall>c\<in>set (event_activities twice_kata).
        activity_id c = activity_id (event_activities twice_kata ! 1) \<longrightarrow>
        name c = name (event_activities twice_kata ! 1)"
    by (simp add: twice_kata_def)
  have a1: "list_all (\<lambda>a. name a \<in> set fixed_names) (event_activities twice_kata)"
    using h1 by (simp only: list_all_iff)
  have a2: "list_all (\<lambda>k. k \<in> activity_id ` set (event_activities twice_kata))
      (referenced_ids twice_kata)"
    using h2 by (simp only: list_all_iff)
  have b0: "list_all (\<lambda>c. if activity_id c = activity_id (event_activities twice_kata ! 0)
                  then name c = name (event_activities twice_kata ! 0) else True)
     (event_activities twice_kata)"
    by (simp add: twice_kata_def)
  have b1: "list_all (\<lambda>c. if activity_id c = activity_id (event_activities twice_kata ! 1)
                  then name c = name (event_activities twice_kata ! 1) else True)
     (event_activities twice_kata)"
    by (simp add: twice_kata_def)
  from shared_name_shares_identifier [OF h1 h2 h3 h4 h5, of example_globals]
  obtain d' n where r: "adjust_ids example_globals twice_kata = Returned d'"
    and n: "name_to_new_id example_globals (name (event_activities twice_kata ! 0)) = Some n"
    and d0: "activity_id (event_activities d' ! 0) = n"
    and d1: "activity_id (event_activities d' ! 1) = n"
    and m0: "(\<forall>c\<in>set (event_activities twice_kata).
          activity_id c = activity_id (event_activities twice_kata ! 0) \<longrightarrow>
          name c = name (event_activities twice_kata ! 0)) \<longrightarrow>
       activity_id_map example_globals twice_kata (activity_id (event_activities twice_kata ! 0)) = Some n"
    and m1: "(\<forall>c\<in>set (event_activities twice_kata).
          activity_id c = activity_id (event_activities twice_kata ! 1) \<longrightarrow>
          name c = name (event_activities twice_kata ! 1)) \<longrightarrow>
       activity_id_map example_globals twice_kata (activity_id (event_activities twice_kata ! 1)) = Some n"
    by blast
  from m0 o0 have k0: "activity_id_map example_globals twice_kata
      (activity_id (event_activities twice_kata ! 0)) = Some n" by (rule mp)
  from m1 o1 have k1: "activity_id_map example_globals twice_kata
      (activity_id (event_activities twice_kata ! 1)) = Some n" by (rule mp)
  from r n d0 d1 k0 k1 have "\<exists>d' n. adjust_ids example_globals twice_kata = Returned d' \<and>
      name_to_new_id example_globals (name (event_activities twice_kata ! 0)) = Some n \<and>
      activity_id (event_activities d' ! 0) = n \<and>
      activity_id (event_activities d' ! 1) = n \<and>
      activity_id_map example_globals twice_kata (activity_id (event_activities twice_kata ! 0)) = Some n \<and>
      activity_id_map example_globals twice_kata (activity_id (event_activities twice_kata ! 1)) = Some n"
    by blast
  with a1 a2 h3 h4 h5 b0 b1 show ?thesis by (intro conjI)
qed

section \<open>The order of the visits\<close>

text \<open>In the order of the document the parametrised passes are the source's loops.\<close>

lemma definitions_in_document_order:
  "definitions_in_order g [length pre..<length pre + length as] v m (pre @ as) =
     (case definitions_loop g v m as of (as', m', e) \<Rightarrow> (pre @ as', m', e))"
proof (induction as arbitrary: pre v m)
  case Nil
  show ?case by simp
next
  case (Cons a as)
  have upt: "[length pre..<length pre + length (a # as)] =
      length pre # [length (pre @ [a]) ..<length (pre @ [a]) + length as]"
    by (subst upt_conv_Cons) simp_all
  show ?case
  proof (cases "assign_new_id g (name a) v")
    case None
    then show ?thesis unfolding upt by simp
  next
    case (Some n)
    have "definitions_in_order g [length (pre @ [a\<lparr>activity_id := n\<rparr>])..<
            length (pre @ [a\<lparr>activity_id := n\<rparr>]) + length as] (Some n)
            (m(activity_id a \<mapsto> n)) ((pre @ [a\<lparr>activity_id := n\<rparr>]) @ as) =
          (case definitions_loop g (Some n) (m(activity_id a \<mapsto> n)) as of
             (as', m', e) \<Rightarrow> ((pre @ [a\<lparr>activity_id := n\<rparr>]) @ as', m', e))"
      by (rule Cons.IH)
    with Some show ?thesis
      unfolding upt by (simp split: prod.splits)
  qed
qed

lemma references_in_document_order:
  "references_in_order m [length pre..<length pre + length rs] (pre @ rs) =
     (case references_loop m rs of (rs', e) \<Rightarrow> (pre @ rs', e))"
proof (induction rs arbitrary: pre)
  case Nil
  show ?case by simp
next
  case (Cons r rs)
  have upt: "[length pre..<length pre + length (r # rs)] =
      length pre # [length (pre @ [r]) ..<length (pre @ [r]) + length rs]"
    by (subst upt_conv_Cons) simp_all
  show ?case
  proof (cases "m (ref_activity_id r)")
    case None
    then show ?thesis unfolding upt by simp
  next
    case (Some n)
    have "references_in_order m [length (pre @ [r\<lparr>ref_activity_id := n\<rparr>])..<
            length (pre @ [r\<lparr>ref_activity_id := n\<rparr>]) + length rs]
            ((pre @ [r\<lparr>ref_activity_id := n\<rparr>]) @ rs) =
          (case references_loop m rs of
             (rs', e) \<Rightarrow> ((pre @ [r\<lparr>ref_activity_id := n\<rparr>]) @ rs', e))"
      by (rule Cons.IH)
    with Some show ?thesis
      unfolding upt by (simp split: prod.splits)
  qed
qed

lemma references_in_document_order_all:
  "references_in_order m [0..<length rs] rs = references_loop m rs"
  using references_in_document_order [of m "[]" rs] by (simp split: prod.splits)

lemma participants_in_document_order:
  assumes "\<forall>j<length ps. inner (length pre + j) =
      (case activities (ps ! j) of None \<Rightarrow> [] | Some rs \<Rightarrow> [0..<length rs])"
  shows "participants_in_order m inner [length pre..<length pre + length ps] (pre @ ps) =
     (case participants_loop m ps of (ps', e) \<Rightarrow> (pre @ ps', e))"
  using assms
proof (induction ps arbitrary: pre)
  case Nil
  show ?case by simp
next
  case (Cons p ps)
  have upt: "[length pre..<length pre + length (p # ps)] =
      length pre # [length (pre @ [p]) ..<length (pre @ [p]) + length ps]"
    by (subst upt_conv_Cons) simp_all
  from Cons.prems have here: "inner (length pre) =
      (case activities p of None \<Rightarrow> [] | Some rs \<Rightarrow> [0..<length rs])"
    by force
  have later: "\<forall>j<length ps. inner (length (pre @ [q]) + j) =
      (case activities (ps ! j) of None \<Rightarrow> [] | Some rs \<Rightarrow> [0..<length rs])" for q :: "'a participant"
  proof (intro allI impI)
    fix j assume "j < length ps"
    then have "Suc j < length (p # ps)" by simp
    with Cons.prems have "inner (length pre + Suc j) =
      (case activities ((p # ps) ! Suc j) of None \<Rightarrow> [] | Some rs \<Rightarrow> [0..<length rs])"
      by blast
    then show "inner (length (pre @ [q]) + j) =
      (case activities (ps ! j) of None \<Rightarrow> [] | Some rs \<Rightarrow> [0..<length rs])"
      by simp
  qed
  show ?case
  proof (cases "activities p")
    case None
    have "participants_in_order m inner [length (pre @ [p])..<length (pre @ [p]) + length ps]
            ((pre @ [p]) @ ps) =
          (case participants_loop m ps of (ps', e) \<Rightarrow> ((pre @ [p]) @ ps', e))"
      by (rule Cons.IH [OF later])
    with None show ?thesis
      unfolding upt by (simp split: prod.splits)
  next
    case (Some rs)
    obtain rs' e1 where l: "references_loop m rs = (rs', e1)" by (metis surj_pair)
    from here Some have inn: "inner (length pre) = [0..<length rs]" by simp
    have r: "references_in_order m (inner (length pre)) rs = (rs', e1)"
      using l by (simp add: inn references_in_document_order_all)
    show ?thesis
    proof (cases e1)
      case None
      have "participants_in_order m inner
              [length (pre @ [p\<lparr>activities := Some rs'\<rparr>])..<
               length (pre @ [p\<lparr>activities := Some rs'\<rparr>]) + length ps]
              ((pre @ [p\<lparr>activities := Some rs'\<rparr>]) @ ps) =
            (case participants_loop m ps of
               (ps', e) \<Rightarrow> ((pre @ [p\<lparr>activities := Some rs'\<rparr>]) @ ps', e))"
        by (rule Cons.IH [OF later])
      with None Some l r show ?thesis
        unfolding upt by (simp split: prod.splits)
    next
      case (Some x)
      with \<open>activities p = Some rs\<close> l r show ?thesis
        unfolding upt by simp
    qed
  qed
qed

lemma adjust_ids_in_document_order:
  "adjust_ids_in_order g (document_order d) d = adjust_ids g d"
proof -
  have a: "definitions_in_order g [0..<length (event_activities d)] v m (event_activities d) =
      definitions_loop g v m (event_activities d)" for v m
    using definitions_in_document_order [of g "[]" "event_activities d" v m]
    by (simp split: prod.splits)
  have b: "participants_in_order m (activities_order (document_order d))
        [0..<length (attrs_participants d)] (attrs_participants d) =
      participants_loop m (attrs_participants d)" for m
    using participants_in_document_order [of "attrs_participants d"
        "activities_order (document_order d)" "[]" m]
    by (simp add: document_order_def split: prod.splits)
  have c: "references_in_order m [0..<length (attrs_categories d)] (attrs_categories d) =
      references_loop m (attrs_categories d)" for m
    by (rule references_in_document_order_all)
  show ?thesis
    unfolding adjust_ids_in_order_def adjust_ids_def
    by (simp add: document_order_def a b [unfolded document_order_def, simplified] c)
qed

lemma references_in_any_order:
  assumes "distinct is"
    and "\<forall>i\<in>set is. i < length rs \<and> m (ref_activity_id (rs ! i)) \<noteq> None"
  shows "references_in_order m is rs =
     (map (\<lambda>j. if j \<in> set is then substitute m (rs ! j) else rs ! j) [0..<length rs], None)"
  using assms
proof (induction "is" arbitrary: rs)
  case Nil
  show ?case by (simp add: map_nth)
next
  case (Cons i "is")
  from Cons.prems obtain n where n: "m (ref_activity_id (rs ! i)) = Some n" and i: "i < length rs"
    by auto
  let ?rs = "rs[i := (rs ! i)\<lparr>ref_activity_id := n\<rparr>]"
  from Cons.prems have notin: "i \<notin> set is" and d: "distinct is" by simp_all
  have p: "\<forall>j\<in>set is. j < length ?rs \<and> m (ref_activity_id (?rs ! j)) \<noteq> None"
    using Cons.prems notin by (auto simp: nth_list_update)
  have "references_in_order m is ?rs =
      (map (\<lambda>j. if j \<in> set is then substitute m (?rs ! j) else ?rs ! j) [0..<length ?rs], None)"
    by (rule Cons.IH [OF d p])
  also have "map (\<lambda>j. if j \<in> set is then substitute m (?rs ! j) else ?rs ! j) [0..<length ?rs] =
      map (\<lambda>j. if j \<in> set (i # is) then substitute m (rs ! j) else rs ! j) [0..<length rs]"
    using notin n i by (auto simp: nth_list_update substitute_def)
  finally show ?case using n by simp
qed

lemma references_in_full_order:
  assumes "is_order is (length rs)"
    and "\<forall>r\<in>set rs. m (ref_activity_id r) \<noteq> None"
  shows "references_in_order m is rs = (map (substitute m) rs, None)"
proof -
  from assms have d: "distinct is" and s: "set is = {0..<length rs}"
    by (simp_all add: is_order_def)
  have "references_in_order m is rs =
     (map (\<lambda>j. if j \<in> set is then substitute m (rs ! j) else rs ! j) [0..<length rs], None)"
    using d assms(2) s by (intro references_in_any_order) auto
  also have "map (\<lambda>j. if j \<in> set is then substitute m (rs ! j) else rs ! j) [0..<length rs] =
      map (substitute m) rs"
    using s by (intro nth_equalityI) auto
  finally show ?thesis .
qed

lemma substitute_all_None: "activities p = None \<Longrightarrow> substitute_all m p = p"
  by (simp add: substitute_all_def)

lemma participants_in_any_order:
  assumes "distinct is"
    and "\<forall>i\<in>set is. i < length ps \<and>
        (\<forall>rs. activities (ps ! i) = Some rs \<longrightarrow>
           is_order (inner i) (length rs) \<and> (\<forall>r\<in>set rs. m (ref_activity_id r) \<noteq> None))"
  shows "participants_in_order m inner is ps =
     (map (\<lambda>j. if j \<in> set is then substitute_all m (ps ! j) else ps ! j) [0..<length ps], None)"
  using assms
proof (induction "is" arbitrary: ps)
  case Nil
  show ?case by (simp add: map_nth)
next
  case (Cons i "is")
  from Cons.prems have notin: "i \<notin> set is" and d: "distinct is" and i: "i < length ps"
    by simp_all
  show ?case
  proof (cases "activities (ps ! i)")
    case None
    have p: "\<forall>j\<in>set is. j < length ps \<and>
        (\<forall>rs. activities (ps ! j) = Some rs \<longrightarrow>
           is_order (inner j) (length rs) \<and> (\<forall>r\<in>set rs. m (ref_activity_id r) \<noteq> None))"
      using Cons.prems by simp
    have "participants_in_order m inner is ps =
      (map (\<lambda>j. if j \<in> set is then substitute_all m (ps ! j) else ps ! j) [0..<length ps], None)"
      by (rule Cons.IH [OF d p])
    also have "map (\<lambda>j. if j \<in> set is then substitute_all m (ps ! j) else ps ! j) [0..<length ps] =
        map (\<lambda>j. if j \<in> set (i # is) then substitute_all m (ps ! j) else ps ! j) [0..<length ps]"
      using None by (auto simp: substitute_all_None)
    finally show ?thesis using None by simp
  next
    case (Some rs)
    with Cons.prems have o: "is_order (inner i) (length rs)"
      and r: "\<forall>r\<in>set rs. m (ref_activity_id r) \<noteq> None"
      by simp_all
    have refs: "references_in_order m (inner i) rs = (map (substitute m) rs, None)"
      by (rule references_in_full_order [OF o r])
    let ?ps = "ps[i := (ps ! i)\<lparr>activities := Some (map (substitute m) rs)\<rparr>]"
    have p: "\<forall>j\<in>set is. j < length ?ps \<and>
        (\<forall>rs. activities (?ps ! j) = Some rs \<longrightarrow>
           is_order (inner j) (length rs) \<and> (\<forall>r\<in>set rs. m (ref_activity_id r) \<noteq> None))"
      using Cons.prems notin by (auto simp: nth_list_update)
    have "participants_in_order m inner is ?ps =
      (map (\<lambda>j. if j \<in> set is then substitute_all m (?ps ! j) else ?ps ! j) [0..<length ?ps], None)"
      by (rule Cons.IH [OF d p])
    also have "map (\<lambda>j. if j \<in> set is then substitute_all m (?ps ! j) else ?ps ! j) [0..<length ?ps] =
        map (\<lambda>j. if j \<in> set (i # is) then substitute_all m (ps ! j) else ps ! j) [0..<length ps]"
      using notin i Some by (auto simp: nth_list_update substitute_all_def)
    finally show ?thesis using Some refs by simp
  qed
qed

lemma definitions_in_any_order:
  assumes "distinct is"
    and "\<forall>i\<in>set is. i < length as \<and> name (as ! i) \<in> set fixed_names"
  shows "definitions_in_order g is v m as =
     (map (\<lambda>j. if j \<in> set is then with_new_id g (as ! j) else as ! j) [0..<length as],
      m ++ map_of (rev (map (\<lambda>i. (activity_id (as ! i), the (name_to_new_id g (name (as ! i))))) is)),
      None)"
  using assms
proof (induction "is" arbitrary: v m as)
  case Nil
  show ?case by (simp add: map_nth)
next
  case (Cons i "is")
  from Cons.prems have notin: "i \<notin> set is" and d: "distinct is" and i: "i < length as"
    and fx: "name (as ! i) \<in> set fixed_names"
    by simp_all
  from fx obtain n where n: "name_to_new_id g (name (as ! i)) = Some n"
    using name_to_new_id_dom by blast
  have asg: "assign_new_id g (name (as ! i)) v = Some n"
    using fx n by (simp add: assign_new_id_fixed)
  let ?as = "as[i := (as ! i)\<lparr>activity_id := n\<rparr>]"
  let ?kv = "\<lambda>as i. (activity_id (as ! i), the (name_to_new_id g (name (as ! i))))"
  have p: "\<forall>j\<in>set is. j < length ?as \<and> name (?as ! j) \<in> set fixed_names"
    using Cons.prems notin by (auto simp: nth_list_update)
  have "definitions_in_order g is (Some n) (m(activity_id (as ! i) \<mapsto> n)) ?as =
     (map (\<lambda>j. if j \<in> set is then with_new_id g (?as ! j) else ?as ! j) [0..<length ?as],
      m(activity_id (as ! i) \<mapsto> n) ++ map_of (rev (map (?kv ?as) is)), None)"
    by (rule Cons.IH [OF d p])
  moreover have "map (\<lambda>j. if j \<in> set is then with_new_id g (?as ! j) else ?as ! j) [0..<length ?as] =
      map (\<lambda>j. if j \<in> set (i # is) then with_new_id g (as ! j) else as ! j) [0..<length as]"
    using notin n i by (auto simp: nth_list_update with_new_id_def)
  moreover have "map (?kv ?as) is = map (?kv as) is"
  proof (rule map_cong [OF refl])
    fix x assume "x \<in> set is"
    with notin have "x \<noteq> i" by auto
    then show "?kv ?as x = ?kv as x" by simp
  qed
  moreover have "m(activity_id (as ! i) \<mapsto> n) ++ map_of (rev (map (?kv as) is)) =
      m ++ map_of (rev (map (?kv as) (i # is)))"
    by (simp add: n fun_eq_iff map_add_def split: option.splits)
  ultimately show ?case using asg by (simp add: Let_def)
qed

lemma definitions_in_full_order:
  assumes ord: "is_order is (length as)"
    and names: "\<forall>a\<in>set as. name a \<in> set fixed_names"
    and dist: "distinct (map activity_id as)"
  shows "definitions_in_order g is None Map.empty as =
     (map (with_new_id g) as, map_of (rev (recorded g as)), None)"
proof -
  let ?kv = "\<lambda>i. (activity_id (as ! i), the (name_to_new_id g (name (as ! i))))"
  from ord have d: "distinct is" and s: "set is = {0..<length as}"
    by (simp_all add: is_order_def)
  have "definitions_in_order g is None Map.empty as =
     (map (\<lambda>j. if j \<in> set is then with_new_id g (as ! j) else as ! j) [0..<length as],
      Map.empty ++ map_of (rev (map ?kv is)), None)"
    using d names s by (intro definitions_in_any_order) auto
  moreover have "map (\<lambda>j. if j \<in> set is then with_new_id g (as ! j) else as ! j) [0..<length as] =
      map (with_new_id g) as"
    using s by (intro nth_equalityI) auto
  moreover have "map_of (rev (map ?kv is)) = map_of (rev (recorded g as))"
  proof -
    have inj: "inj_on (\<lambda>i. activity_id (as ! i)) (set is)"
    proof (rule inj_onI)
      fix x y
      assume "x \<in> set is" "y \<in> set is" and eq: "activity_id (as ! x) = activity_id (as ! y)"
      with s have x: "x < length as" and y: "y < length as" by simp_all
      from dist x y have "(map activity_id as ! x = map activity_id as ! y) = (x = y)"
        by (intro nth_eq_iff_index_eq) simp_all
      with eq x y show "x = y" by simp
    qed
    have d1: "distinct (map fst (rev (map ?kv is)))"
      using d inj by (simp add: rev_map [symmetric] distinct_map comp_def)
    have d2: "distinct (map fst (rev (recorded g as)))"
      using dist by (simp add: recorded_def rev_map [symmetric] comp_def)
    have "map ?kv [0..<length as] =
        map (\<lambda>a. (activity_id a, the (name_to_new_id g (name a)))) (map (\<lambda>i. as ! i) [0..<length as])"
      by simp
    also have "\<dots> = recorded g as"
      by (simp only: map_nth recorded_def)
    finally have "recorded g as = map ?kv [0..<length as]" by (rule sym)
    then have "set (recorded g as) = set (map ?kv [0..<length as])" by (rule arg_cong)
    then have "set (recorded g as) = ?kv ` {0..<length as}"
      by (simp only: set_map set_upt)
    moreover have "set (map ?kv is) = ?kv ` {0..<length as}"
      using s by simp
    ultimately have "set (rev (map ?kv is)) = set (rev (recorded g as))" by simp
    with d1 d2 show ?thesis by (simp only: map_of_inject_set)
  qed
  ultimately show ?thesis by simp
qed

text \<open>
  C4, as stated, fails. \<^verbatim>\<open>adjust_ids\<close> is a function of the globals and the document
  (it reads nothing else, and a Python dictionary keeps the order of its insertions),
  so two runs on the same input agree. The order within the first pass matters,
  though: line 88 overwrites the entry of an original identifier, so when two
  definitions have the same original identifier the one visited last decides what the
  references to it become.
\<close>

theorem iteration_order_matters:
  "admissible reversed_definitions same_identifier \<and>
   adjust_ids example_globals same_identifier =
     Returned
       \<lparr>doc_id = None,
        event_activities =
          [\<lparr>activity_id = ''#N1'', name = ''Kata'', activity_other = ''individual''\<rparr>,
           \<lparr>activity_id = ''#N2'', name = ''Kumite'', activity_other = ''individual''\<rparr>],
        attrs_participants = [],
        attrs_categories = [\<lparr>ref_activity_id = ''#N2'', ref_other = ''juniors''\<rparr>],
        document_other = ''Test''\<rparr> \<and>
   adjust_ids_in_order example_globals reversed_definitions same_identifier =
     Returned
       \<lparr>doc_id = None,
        event_activities =
          [\<lparr>activity_id = ''#N1'', name = ''Kata'', activity_other = ''individual''\<rparr>,
           \<lparr>activity_id = ''#N2'', name = ''Kumite'', activity_other = ''individual''\<rparr>],
        attrs_participants = [],
        attrs_categories = [\<lparr>ref_activity_id = ''#N1'', ref_other = ''juniors''\<rparr>],
        document_other = ''Test''\<rparr> \<and>
   adjust_ids_in_order example_globals reversed_definitions same_identifier \<noteq>
     adjust_ids example_globals same_identifier"
proof -
  have a: "admissible reversed_definitions same_identifier"
    by (auto simp: admissible_def is_order_def reversed_definitions_def same_identifier_def)
  have b: "adjust_ids example_globals same_identifier =
     Returned
       \<lparr>doc_id = None,
        event_activities =
          [\<lparr>activity_id = ''#N1'', name = ''Kata'', activity_other = ''individual''\<rparr>,
           \<lparr>activity_id = ''#N2'', name = ''Kumite'', activity_other = ''individual''\<rparr>],
        attrs_participants = [],
        attrs_categories = [\<lparr>ref_activity_id = ''#N2'', ref_other = ''juniors''\<rparr>],
        document_other = ''Test''\<rparr>"
    by (simp add: adjust_ids_def same_identifier_def example_globals_def assign_new_id_def)
  have c: "adjust_ids_in_order example_globals reversed_definitions same_identifier =
     Returned
       \<lparr>doc_id = None,
        event_activities =
          [\<lparr>activity_id = ''#N1'', name = ''Kata'', activity_other = ''individual''\<rparr>,
           \<lparr>activity_id = ''#N2'', name = ''Kumite'', activity_other = ''individual''\<rparr>],
        attrs_participants = [],
        attrs_categories = [\<lparr>ref_activity_id = ''#N1'', ref_other = ''juniors''\<rparr>],
        document_other = ''Test''\<rparr>"
    by (simp add: adjust_ids_in_order_def reversed_definitions_def same_identifier_def
        example_globals_def assign_new_id_def)
  from a b c show ?thesis by simp
qed

text \<open>
  C4, amended. When every definition has one of the four names, the original
  identifiers of the definitions are pairwise distinct and every reference resolves,
  the outcome does not depend on the order of the visits within any of the three
  passes: every admissible order gives what the source's order gives.
\<close>

theorem adjust_ids_order_independent:
  assumes names: "\<forall>a\<in>set (event_activities d). name a \<in> set fixed_names"
    and dist: "distinct (map activity_id (event_activities d))"
    and refs: "\<forall>k\<in>set (referenced_ids d). k \<in> activity_id ` set (event_activities d)"
    and adm: "admissible ord d"
  shows "adjust_ids_in_order g ord d = adjust_ids g d"
proof -
  let ?as = "event_activities d"
  let ?M = "map_of (rev (recorded g ?as))"
  from adm have o1: "is_order (definitions_order ord) (length ?as)"
    and o2: "is_order (participants_order ord) (length (attrs_participants d))"
    and la: "\<forall>i\<in>set [0..<length (attrs_participants d)].
        (case activities (attrs_participants d ! i) of None \<Rightarrow> True
         | Some rs \<Rightarrow> is_order (activities_order ord i) (length rs))"
    and o4: "is_order (categories_order ord) (length (attrs_categories d))"
    by (simp_all add: admissible_def list_all_iff)
  have o3: "\<forall>i<length (attrs_participants d). \<forall>rs. activities (attrs_participants d ! i) = Some rs \<longrightarrow>
        is_order (activities_order ord i) (length rs)"
  proof (intro allI impI)
    fix i rs
    assume "i < length (attrs_participants d)" and rs: "activities (attrs_participants d ! i) = Some rs"
    then have "i \<in> set [0..<length (attrs_participants d)]" by simp
    with la have "case activities (attrs_participants d ! i) of None \<Rightarrow> True
         | Some rs \<Rightarrow> is_order (activities_order ord i) (length rs)"
      by (rule bspec)
    with rs show "is_order (activities_order ord i) (length rs)" by simp
  qed
  have res: "?M k \<noteq> None" if "k \<in> set (referenced_ids d)" for k
    using refs that recorded_defined [of k ?as g] by auto
  have l1: "definitions_in_order g (definitions_order ord) None Map.empty ?as =
      (map (with_new_id g) ?as, ?M, None)"
    by (rule definitions_in_full_order [OF o1 names dist])
  have d2: "distinct (participants_order ord)"
    and s2: "set (participants_order ord) = {0..<length (attrs_participants d)}"
    using o2 by (simp_all add: is_order_def)
  have p2: "\<forall>i\<in>set (participants_order ord). i < length (attrs_participants d) \<and>
        (\<forall>rs. activities (attrs_participants d ! i) = Some rs \<longrightarrow>
           is_order (activities_order ord i) (length rs) \<and>
           (\<forall>r\<in>set rs. ?M (ref_activity_id r) \<noteq> None))"
  proof (intro ballI conjI allI impI)
    fix i assume "i \<in> set (participants_order ord)"
    with s2 show i: "i < length (attrs_participants d)" by simp
    fix rs assume rs: "activities (attrs_participants d ! i) = Some rs"
    with o3 i show "is_order (activities_order ord i) (length rs)" by blast
    fix r assume "r \<in> set rs"
    with rs i have "ref_activity_id r \<in> set (referenced_ids d)"
      by (force simp: referenced_ids_def in_set_conv_nth)
    then show "?M (ref_activity_id r) \<noteq> None" by (rule res)
  qed
  have "participants_in_order ?M (activities_order ord) (participants_order ord)
          (attrs_participants d) =
      (map (\<lambda>j. if j \<in> set (participants_order ord) then substitute_all ?M (attrs_participants d ! j)
                 else attrs_participants d ! j) [0..<length (attrs_participants d)], None)"
    by (rule participants_in_any_order [OF d2 p2])
  moreover have "map (\<lambda>j. if j \<in> set (participants_order ord)
                 then substitute_all ?M (attrs_participants d ! j)
                 else attrs_participants d ! j) [0..<length (attrs_participants d)] =
      map (substitute_all ?M) (attrs_participants d)"
    using s2 by (intro nth_equalityI) auto
  ultimately have l2: "participants_in_order ?M (activities_order ord) (participants_order ord)
          (attrs_participants d) = (map (substitute_all ?M) (attrs_participants d), None)"
    by simp
  have cres: "\<forall>r\<in>set (attrs_categories d). ?M (ref_activity_id r) \<noteq> None"
    using res by (simp add: referenced_ids_def)
  have l3: "references_in_order ?M (categories_order ord) (attrs_categories d) =
      (map (substitute ?M) (attrs_categories d), None)"
    by (rule references_in_full_order [OF o4 cres])
  have "adjust_ids_in_order g ord d =
     Returned (d\<lparr>event_activities := map (with_new_id g) ?as,
                 attrs_participants := map (substitute_all ?M) (attrs_participants d),
                 attrs_categories := map (substitute ?M) (attrs_categories d)\<rparr>)"
    by (simp add: adjust_ids_in_order_def l1 l2 l3)
  also have "\<dots> = adjust_ids g d"
    using adjust_ids_returns [OF names refs, of g]
    by (simp add: with_new_id_def [abs_def] substitute_all_def [abs_def])
  finally show ?thesis .
qed

theorem adjust_ids_order_independent_witness:
  "list_all (\<lambda>a. name a \<in> set fixed_names) (event_activities example_document) \<and>
   distinct (map activity_id (event_activities example_document)) \<and>
   list_all (\<lambda>k. k \<in> activity_id ` set (event_activities example_document))
     (referenced_ids example_document) \<and>
   admissible shuffled example_document \<and>
   adjust_ids_in_order example_globals shuffled example_document =
     adjust_ids example_globals example_document"
proof -
  have h1: "\<forall>a\<in>set (event_activities example_document). name a \<in> set fixed_names"
    by (simp add: example_document_def example_activities_def fixed_names_def)
  have h2: "distinct (map activity_id (event_activities example_document))"
    by (simp add: example_document_def example_activities_def)
  have h3: "\<forall>k\<in>set (referenced_ids example_document).
      k \<in> activity_id ` set (event_activities example_document)"
    by (simp add: example_document_def example_activities_def referenced_ids_def)
  have h4: "admissible shuffled example_document"
    by (auto simp: admissible_def is_order_def shuffled_def example_document_def
        example_activities_def)
  have a1: "list_all (\<lambda>a. name a \<in> set fixed_names) (event_activities example_document)"
    using h1 by (simp only: list_all_iff)
  have a3: "list_all (\<lambda>k. k \<in> activity_id ` set (event_activities example_document))
     (referenced_ids example_document)"
    using h3 by (simp only: list_all_iff)
  from a1 h2 a3 h4 adjust_ids_order_independent [OF h1 h2 h3 h4, of example_globals]
  show ?thesis by (intro conjI)
qed

end
